theory Spec2Isabelle
  imports Main "HOL-Library.Sublist" "HOL-Library.Monad_Syntax"
begin

section \<open>POSIX path strings (the os.path functions used by ide_gen.py)\<close>

text \<open>
  Paths are Python byte strings, modelled as \<open>string\<close>.  The functions below follow
  \<^verbatim>\<open>posixpath.join\<close>, \<^verbatim>\<open>posixpath.split\<close> and \<^verbatim>\<open>posixpath.dirname\<close>:
  \<^verbatim>\<open>join\<close> restarts at a component that begins with the separator and inserts a
  separator unless the path so far is empty or already ends with one; \<^verbatim>\<open>split\<close> cuts
  after the last separator and strips the trailing separators of the head unless the head
  consists of separators only.
\<close>

definition sep :: char where
  "sep = CHR ''/''"

definition startswith_sep :: "string \<Rightarrow> bool" where
  "startswith_sep b = (case b of [] \<Rightarrow> False | c # _ \<Rightarrow> c = sep)"

definition endswith_sep :: "string \<Rightarrow> bool" where
  "endswith_sep a = (a \<noteq> [] \<and> last a = sep)"

definition join2 :: "string \<Rightarrow> string \<Rightarrow> string" where
  "join2 path b =
     (if startswith_sep b then b
      else if path = [] \<or> endswith_sep path then path @ b
      else path @ [sep] @ b)"

definition path_join :: "string \<Rightarrow> string list \<Rightarrow> string" where
  "path_join a p = foldl join2 a p"

definition rstrip_sep :: "string \<Rightarrow> string" where
  "rstrip_sep s = rev (dropWhile (\<lambda>c. c = sep) (rev s))"

definition path_split :: "string \<Rightarrow> string \<times> string" where
  "path_split p =
     (let head = rev (dropWhile (\<lambda>c. c \<noteq> sep) (rev p));
          tail = rev (takeWhile (\<lambda>c. c \<noteq> sep) (rev p))
      in (if head \<noteq> [] \<and> head \<noteq> replicate (length head) sep then rstrip_sep head else head,
          tail))"

definition dirname :: "string \<Rightarrow> string" where
  "dirname p = fst (path_split p)"

partial_function (option) ancestors_loop :: "string \<Rightarrow> string \<Rightarrow> string set \<Rightarrow> string set option" where
  "ancestors_loop root_dir parent unexcludable_paths =
     (let unexcludable_paths' = insert parent unexcludable_paths;
          parent' = fst (path_split parent)
      in if parent' = root_dir then Some unexcludable_paths'
         else ancestors_loop root_dir parent' unexcludable_paths')"

declare ancestors_loop.simps [code]

text \<open>
  \<^verbatim>\<open>str.split(sep)\<close>, \<^verbatim>\<open>sep.join(list)\<close>, and on top of them \<^verbatim>\<open>posixpath.normpath\<close>,
  \<^verbatim>\<open>abspath\<close> (the current directory is a parameter) and \<^verbatim>\<open>relpath\<close>, which raises
  \<^verbatim>\<open>ValueError\<close> on an empty path.
\<close>

datatype task_error = Multiple_jars | Multiple_source_jars

datatype error = TaskError task_error | IOError | ValueError | AttributeError | OSError

fun str_split :: "char \<Rightarrow> string \<Rightarrow> string list" where
  "str_split c [] = [[]]"
| "str_split c (x # xs) =
     (if x = c then [] # str_split c xs
      else (case str_split c xs of [] \<Rightarrow> [[x]] | w # ws \<Rightarrow> (x # w) # ws))"

fun str_join :: "string \<Rightarrow> string list \<Rightarrow> string" where
  "str_join s [] = []"
| "str_join s [x] = x"
| "str_join s (x # y # ys) = x @ s @ str_join s (y # ys)"

definition initial_slashes :: "string \<Rightarrow> nat" where
  "initial_slashes p =
     (if \<not> startswith_sep p then 0
      else if take 2 p = [sep, sep] \<and> take 3 p \<noteq> [sep, sep, sep] then 2
      else 1)"

fun normpath_comps :: "nat \<Rightarrow> string list \<Rightarrow> string list \<Rightarrow> string list" where
  "normpath_comps init [] new_comps = new_comps"
| "normpath_comps init (c # comps) new_comps =
     (if c = [] \<or> c = ''.'' then normpath_comps init comps new_comps
      else if c \<noteq> ''..'' \<or> (init = 0 \<and> new_comps = [])
              \<or> (new_comps \<noteq> [] \<and> last new_comps = ''..'')
        then normpath_comps init comps (new_comps @ [c])
      else if new_comps \<noteq> [] then normpath_comps init comps (butlast new_comps)
      else normpath_comps init comps new_comps)"

definition normpath :: "string \<Rightarrow> string" where
  "normpath p =
     (if p = [] then ''.''
      else let init = initial_slashes p;
               comps = normpath_comps init (str_split sep p) [];
               joined = str_join [sep] comps;
               q = (if init \<noteq> 0 then replicate init sep @ joined else joined)
           in if q = [] then ''.'' else q)"

definition abspath :: "string \<Rightarrow> string \<Rightarrow> string" where
  "abspath cwd p = normpath (if \<not> startswith_sep p then path_join cwd [p] else p)"

fun commonprefix :: "string list \<Rightarrow> string list \<Rightarrow> string list" where
  "commonprefix (x # xs) (y # ys) = (if x = y then x # commonprefix xs ys else [])"
| "commonprefix _ _ = []"

definition relpath :: "string \<Rightarrow> string \<Rightarrow> string \<Rightarrow> error + string" where
  "relpath cwd p start =
     (if p = [] then Inl ValueError
      else let start_list = filter (\<lambda>x. x \<noteq> []) (str_split sep (abspath cwd start));
               path_list = filter (\<lambda>x. x \<noteq> []) (str_split sep (abspath cwd p));
               i = length (commonprefix start_list path_list);
               rel_list = replicate (length start_list - i) ''..'' @ drop i path_list
           in (case rel_list of [] \<Rightarrow> Inr ''.'' | a # rest \<Rightarrow> Inr (path_join a rest)))"

text \<open>\<^verbatim>\<open>os.path.splitext\<close>: the extension starts at the last dot of the last component,
  unless that component consists of leading dots only up to there.\<close>

definition splitext :: "string \<Rightarrow> string \<times> string" where
  "splitext p =
     (let tail = snd (path_split p);
          stem = rev (drop 1 (dropWhile (\<lambda>c. c \<noteq> CHR ''.'') (rev tail)));
          ext = CHR ''.'' # rev (takeWhile (\<lambda>c. c \<noteq> CHR ''.'') (rev tail))
      in if CHR ''.'' \<in> set tail \<and> (\<exists>c\<in>set stem. c \<noteq> CHR ''.'')
         then (take (length p - length ext) p, ext) else (p, []))"

definition endswith :: "string \<Rightarrow> string \<Rightarrow> bool" where
  "endswith s suf = (length suf \<le> length s \<and> drop (length s - length suf) s = suf)"


text \<open>The part of a path up to and including its last separator, before \<^verbatim>\<open>split\<close>
  strips it.\<close>

definition head_raw :: "string \<Rightarrow> string" where
  "head_raw p = rev (dropWhile (\<lambda>c. c \<noteq> sep) (rev p))"

text \<open>The non-empty components of a path, and the reading of ``lies strictly beneath'' by
  components: the components of the root are a proper prefix of those of the path.\<close>

definition path_components :: "string \<Rightarrow> string list" where
  "path_components p = filter (\<lambda>x. x \<noteq> []) (str_split sep p)"

definition lies_strictly_beneath :: "string \<Rightarrow> string \<Rightarrow> bool" where
  "lies_strictly_beneath root_dir p =
     (length (path_components root_dir) < length (path_components p) \<and>
      take (length (path_components root_dir)) (path_components p) = path_components root_dir)"

section \<open>The data model of ide_gen.py\<close>

text \<open>
  A \<^verbatim>\<open>Target\<close> belongs to the build graph, of which ide_gen.py reads attributes and calls
  methods only.  A target object is represented by its address; the record below holds what
  the build graph answers for it: its attributes, the results of \<^verbatim>\<open>has_sources()\<close>,
  \<^verbatim>\<open>has_sources('.scala')\<close> and \<^verbatim>\<open>has_sources('.java')\<close>, its resources (target base and
  sources of each), its dependencies, and the addresses found in its BUILD file and in the
  ancestor, sibling and descendant BUILD files.
\<close>

type_synonym address = string

record target =
  address :: address
  target_base :: string
  target_sources :: "string list"
  has_sources :: bool
  has_scala_sources :: bool
  has_java_sources :: bool
  target_is_scala :: bool
  target_is_java :: bool
  is_codegen :: bool
  target_is_test :: bool
  has_resources :: bool
  resources :: "(string \<times> string list) list"
  dependencies :: "address list"
  buildfile_addresses :: "address list"
  ancestor_addresses :: "address list list"
  sibling_addresses :: "address list list"
  descendant_addresses :: "address list list"

definition is_scala :: "target \<Rightarrow> bool" where
  "is_scala t = (has_scala_sources t \<or> target_is_scala t)"

definition is_java :: "target \<Rightarrow> bool" where
  "is_java t = (has_java_sources t \<or> target_is_java t)"

record classpath_entry =
  jar :: string
  source_jar :: "string option"
  javadoc_jar :: "string option"

definition ClasspathEntry :: "string \<Rightarrow> string option \<Rightarrow> string option \<Rightarrow> classpath_entry" where
  "ClasspathEntry j s d = \<lparr>jar = j, source_jar = s, javadoc_jar = d\<rparr>"

text \<open>
  A \<^verbatim>\<open>SourceSet\<close>; \<^verbatim>\<open>path\<close> is \<^verbatim>\<open>None\<close> for the roots given by the caller.  The class
  attribute \<^verbatim>\<open>TEST_BASES\<close> is one set for the whole process: it is no field of the record
  but a value of its own that every constructor call takes and returns.
\<close>

record source_set =
  ss_root_dir :: string
  source_base :: string
  path :: "string option"
  is_test :: bool
  excludes :: "string list"

definition SourceSet_init ::
  "string \<Rightarrow> string \<Rightarrow> string option \<Rightarrow> bool \<Rightarrow> string set \<Rightarrow> source_set \<times> string set" where
  "SourceSet_init root base p test TEST_BASES =
     (\<lparr>ss_root_dir = root, source_base = base, path = p, is_test = test, excludes = []\<rparr>,
      if test then insert base TEST_BASES else TEST_BASES)"

text \<open>An \<^verbatim>\<open>OrderedSet\<close> is a list without repetition, in insertion order.\<close>

definition OrderedSet_add :: "'a list \<Rightarrow> 'a \<Rightarrow> 'a list" where
  "OrderedSet_add xs x = (if x \<in> set xs then xs else xs @ [x])"

definition OrderedSet_update :: "'a list \<Rightarrow> 'a list \<Rightarrow> 'a list" where
  "OrderedSet_update xs ys = foldl OrderedSet_add xs ys"

record project =
  name :: string
  root_dir :: string
  targets :: "address list"
  transitive :: bool
  sources :: "source_set list"
  py_sources :: "source_set list"
  py_libs :: "source_set list"
  resource_extensions :: "string set"
  has_python :: bool
  skip_java :: bool
  skip_scala :: bool
  has_scala :: bool
  has_tests :: bool
  checkstyle_suppression_files :: "string list"
  debug_port :: int
  internal_jars :: "classpath_entry list"
  external_jars :: "classpath_entry list"

definition Project_init ::
  "string \<Rightarrow> bool \<Rightarrow> bool \<Rightarrow> bool \<Rightarrow> string \<Rightarrow> string list \<Rightarrow> int \<Rightarrow> address list \<Rightarrow> bool
   \<Rightarrow> project" where
  "Project_init nm python no_java no_scala root suppression port tgts is_transitive =
     \<lparr>name = nm, root_dir = root, targets = OrderedSet_update [] tgts, transitive = is_transitive,
      sources = [], py_sources = [], py_libs = [], resource_extensions = {},
      has_python = python, skip_java = no_java, skip_scala = no_scala,
      has_scala = False, has_tests = False,
      checkstyle_suppression_files = suppression, debug_port = port,
      internal_jars = [], external_jars = []\<rparr>"

text \<open>
  What the code reads from outside: the build root, the current directory (used by
  \<^verbatim>\<open>relpath\<close>), the build graph, and a snapshot of the file system.  \<^verbatim>\<open>os.walk\<close> does not
  follow links, so what it finds below a directory is a finite tree; the snapshot gives the
  tree found at a path (none when the path cannot be listed).  A subdirectory that is listed
  but not entered (a link, or a directory that cannot be read) is \<open>NoEntry\<close>.
  The order in which Python iterates over a set or over the keys of a dict is fixed by the
  interpreter, not by the program: \<open>set_order\<close> gives the iteration order of the set built
  from the given sequence of insertions.
\<close>

datatype dirtree = Dir "(string \<times> dirtree) list" | NoEntry

record world =
  buildroot :: string
  cwd :: string
  Target_get :: "address \<Rightarrow> target"
  tree_at :: "string \<Rightarrow> dirtree option"
  listdir :: "string \<Rightarrow> string list option"
  isdir :: "string \<Rightarrow> bool"
  set_order :: "string list \<Rightarrow> string list"

text \<open>A faithful \<open>set_order\<close> lists every inserted element exactly once.\<close>

definition valid_set_order :: "(string list \<Rightarrow> string list) \<Rightarrow> bool" where
  "valid_set_order ord \<longleftrightarrow> (\<forall>xs. distinct (ord xs) \<and> set (ord xs) = set xs)"

fun os_walk_tree :: "string \<Rightarrow> dirtree \<Rightarrow> (string \<times> string list) list" where
  "os_walk_tree dir NoEntry = []"
| "os_walk_tree dir (Dir entries) =
     (dir, map fst entries) #
     concat (map (\<lambda>e. os_walk_tree (path_join dir [fst e]) (snd e)) entries)"

definition os_walk :: "world \<Rightarrow> string \<Rightarrow> (string \<times> string list) list" where
  "os_walk W dir = (case tree_at W dir of None \<Rightarrow> [] | Some t \<Rightarrow> os_walk_tree dir t)"

section \<open>Project.configure_python\<close>

fun new_source_sets ::
  "string \<Rightarrow> string list \<Rightarrow> bool \<Rightarrow> string set \<Rightarrow> source_set list \<times> string set" where
  "new_source_sets root [] test tb = ([], tb)"
| "new_source_sets root (p # ps) test tb =
     (let (s, tb1) = SourceSet_init root p None test tb;
          (ss, tb2) = new_source_sets root ps test tb1
      in (s # ss, tb2))"

fun lib_source_sets ::
  "world \<Rightarrow> string \<Rightarrow> string list \<Rightarrow> string set \<Rightarrow> source_set list \<times> string set" where
  "lib_source_sets W root [] tb = ([], tb)"
| "lib_source_sets W root (p # ps) tb =
     (if isdir W (path_join (buildroot W) [root, p]) \<or> endswith p ''.egg''
      then (let (s, tb1) = SourceSet_init (buildroot W) root (Some p) False tb;
                (ss, tb2) = lib_source_sets W root ps tb1
            in (s # ss, tb2))
      else lib_source_sets W root ps tb)"

fun configure_py_libs ::
  "world \<Rightarrow> string list \<Rightarrow> source_set list \<Rightarrow> string set
   \<Rightarrow> error + (source_set list \<times> string set)" where
  "configure_py_libs W [] libs tb = Inr (libs, tb)"
| "configure_py_libs W (root # roots) libs tb =
     (case listdir W (path_join (buildroot W) [root]) of
        None \<Rightarrow> Inl OSError
      | Some names \<Rightarrow>
          (let (ss, tb1) = lib_source_sets W root names tb
           in configure_py_libs W roots (libs @ ss) tb1))"

definition configure_python ::
  "world \<Rightarrow> project \<Rightarrow> string list \<Rightarrow> string list \<Rightarrow> string list \<Rightarrow> string set
   \<Rightarrow> error + (project \<times> string set)" where
  "configure_python W P source_roots test_roots lib_roots tb =
     (let (srcs, tb1) = new_source_sets (buildroot W) source_roots False tb;
          (tests, tb2) = new_source_sets (buildroot W) test_roots True tb1
      in case configure_py_libs W lib_roots (py_libs P) tb2 of
           Inl e \<Rightarrow> Inl e
         | Inr (libs, tb3) \<Rightarrow>
             Inr (P\<lparr>py_sources := py_sources P @ srcs @ tests, py_libs := libs\<rparr>, tb3))"

section \<open>Project.configure_jvm\<close>

text \<open>
  The local variables \<^verbatim>\<open>analyzed\<close> and \<^verbatim>\<open>targeted\<close>, the project and the class-level
  \<^verbatim>\<open>SourceSet.TEST_BASES\<close> are the state that the nested functions of \<^verbatim>\<open>configure_jvm\<close>
  read and change.
\<close>

record jvm_state =
  analyzed :: "address list"
  targeted :: "string set"
  proj :: project
  TEST_BASES :: "string set"

definition source_target :: "world \<Rightarrow> project \<Rightarrow> address \<Rightarrow> bool" where
  "source_target W P a =
     (let t = Target_get W a
      in (transitive P \<or> a \<in> set (targets P)) \<and>
         has_sources t \<and>
         (\<not> is_codegen t \<and>
          \<not> (skip_java P \<and> is_java t) \<and>
          \<not> (skip_scala P \<and> is_scala t)))"

definition register_path :: "string \<Rightarrow> bool \<Rightarrow> jvm_state \<Rightarrow> string \<Rightarrow> jvm_state" where
  "register_path relative_base test st p =
     (let absolute_base = path_join (root_dir (proj st)) [relative_base];
          absolute_path = path_join absolute_base [p]
      in if absolute_path \<notin> targeted st
         then (let (s, tb) = SourceSet_init (root_dir (proj st)) relative_base (Some p) test
                               (TEST_BASES st)
               in st\<lparr>targeted := insert absolute_path (targeted st),
                     proj := (proj st)\<lparr>sources := sources (proj st) @ [s]\<rparr>,
                     TEST_BASES := tb\<rparr>)
         else st)"

definition configure_source_sets ::
  "world \<Rightarrow> string \<Rightarrow> string list \<Rightarrow> bool \<Rightarrow> jvm_state \<Rightarrow> jvm_state" where
  "configure_source_sets W relative_base srcs test st =
     (let paths = set_order W (map dirname srcs)
      in foldl (register_path relative_base test) st paths)"

definition find_source_basedirs :: "world \<Rightarrow> project \<Rightarrow> address \<Rightarrow> string set" where
  "find_source_basedirs W P a =
     (if source_target W P a
      then (let t = Target_get W a;
                absolute_base = path_join (root_dir P) [target_base t]
            in set (map (\<lambda>source. path_join absolute_base [dirname source]) (target_sources t)))
      else {})"

definition extract_resource_extensions :: "string list \<Rightarrow> string list" where
  "extract_resource_extensions rs = map (\<lambda>resource. snd (splitext resource)) rs"

text \<open>One round of the loop over \<^verbatim>\<open>resources_by_basedir.items()\<close>: the resources of one
  base directory, in the iteration order of the set they were collected in.\<close>

definition configure_resources ::
  "world \<Rightarrow> (string \<times> string list) list \<Rightarrow> jvm_state \<Rightarrow> string \<Rightarrow> jvm_state" where
  "configure_resources W groups st basedir =
     (let rs = set_order W (concat (map snd (filter (\<lambda>g. fst g = basedir) groups)));
          st1 = st\<lparr>proj := (proj st)\<lparr>resource_extensions :=
                   resource_extensions (proj st) \<union> set (extract_resource_extensions rs)\<rparr>\<rparr>
      in configure_source_sets W basedir rs False st1)"

definition candidates :: "target \<Rightarrow> address list" where
  "candidates t =
     OrderedSet_update
       (OrderedSet_update
          (OrderedSet_update
             (OrderedSet_update [] (buildfile_addresses t))
             (concat (ancestor_addresses t)))
          (concat (sibling_addresses t)))
       (concat (descendant_addresses t))"

definition is_sibling :: "world \<Rightarrow> project \<Rightarrow> string set \<Rightarrow> address \<Rightarrow> bool" where
  "is_sibling W P target_dirset a =
     (source_target W P a \<and> target_dirset \<inter> find_source_basedirs W P a \<noteq> {})"

definition configure_target :: "world \<Rightarrow> address \<Rightarrow> jvm_state \<Rightarrow> address list \<times> jvm_state" where
  "configure_target W a st =
     (if a \<in> set (analyzed st) then ([], st)
      else
        (let t = Target_get W a;
             st1 = st\<lparr>analyzed := analyzed st @ [a]\<rparr>;
             st2 = st1\<lparr>proj := (proj st1)\<lparr>has_scala :=
                      \<not> skip_scala (proj st1) \<and> (has_scala (proj st1) \<or> is_scala t)\<rparr>\<rparr>;
             st3 = (if has_resources t
                    then foldl (configure_resources W (resources t)) st2
                           (set_order W (map fst (resources t)))
                    else st2);
             st4 = (if target_sources t \<noteq> []
                    then configure_source_sets W (target_base t) (target_sources t)
                           (target_is_test t)
                           (st3\<lparr>proj := (proj st3)\<lparr>has_tests :=
                                   has_tests (proj st3) \<or> target_is_test t\<rparr>\<rparr>)
                    else st3);
             target_dirset = find_source_basedirs W (proj st4) a
         in (filter (is_sibling W (proj st4) target_dirset)
               (filter (\<lambda>c. c \<noteq> address t) (candidates t)),
             st4)))"

text \<open>
  Modelled from the spec: \<^verbatim>\<open>Target.walk(work, predicate)\<close> of the build graph, whose code is
  not part of ide_gen.py (section 4.1 and step 3 of section 4.2 of the specification).
  The walk keeps a set of visited targets, visits each target once and in first-visited
  order, hands a target to \<open>work\<close> only when the predicate holds for it, follows every
  dependency edge whether or not the predicate holds, and walks the targets that \<open>work\<close>
  returns as well.  The recursion of the walk is kept as a list of targets still to visit.
  A walk that does not end has no result.
\<close>

partial_function (option) walk_targets ::
  "(address \<Rightarrow> 's \<Rightarrow> bool) \<Rightarrow> (address \<Rightarrow> 's \<Rightarrow> address list \<times> 's) \<Rightarrow> (address \<Rightarrow> address list)
   \<Rightarrow> address list \<Rightarrow> address set \<Rightarrow> 's \<Rightarrow> 's option" where
  "walk_targets predicate work deps pending walked s =
     (case pending of
        [] \<Rightarrow> Some s
      | a # rest \<Rightarrow>
          if a \<in> walked then walk_targets predicate work deps rest walked s
          else (let r = (if predicate a s then work a s else ([], s))
                in walk_targets predicate work deps (deps a @ fst r @ rest) (insert a walked)
                     (snd r)))"

declare walk_targets.simps [code]

definition Target_walk ::
  "world \<Rightarrow> address \<Rightarrow> (address \<Rightarrow> 's \<Rightarrow> address list \<times> 's) \<Rightarrow> (address \<Rightarrow> 's \<Rightarrow> bool) \<Rightarrow> 's
   \<Rightarrow> 's option" where
  "Target_walk W a work predicate s =
     walk_targets predicate work (\<lambda>b. dependencies (Target_get W b)) [a] {} s"

text \<open>The loop \<^verbatim>\<open>for target in self.targets: target.walk(configure_target, source_target)\<close>.\<close>

fun analyze_targets :: "world \<Rightarrow> address list \<Rightarrow> jvm_state \<Rightarrow> jvm_state option" where
  "analyze_targets W [] st = Some st"
| "analyze_targets W (a # rest) st =
     (case Target_walk W a (configure_target W) (\<lambda>b s. source_target W (proj s) b) st of
        None \<Rightarrow> None
      | Some st' \<Rightarrow> analyze_targets W rest st')"

text \<open>The set of unexcludable paths: for every source set, the ancestor loop.\<close>

fun unexcludable_paths ::
  "string \<Rightarrow> source_set list \<Rightarrow> string set \<Rightarrow> (error + string set) option" where
  "unexcludable_paths root [] acc = Some (Inr acc)"
| "unexcludable_paths root (s # rest) acc =
     (case path s of
        None \<Rightarrow> Some (Inl AttributeError)
      | Some p \<Rightarrow>
          (case ancestors_loop root (path_join root [source_base s, p]) acc of
             None \<Rightarrow> None
           | Some acc' \<Rightarrow> unexcludable_paths root rest acc'))"

text \<open>The subdirectories found below a source set that are neither targeted nor
  unexcludable, in the order in which they are appended to the excludes.\<close>

definition excluded_children :: "world \<Rightarrow> string set \<Rightarrow> string set \<Rightarrow> string \<Rightarrow> string list" where
  "excluded_children W tg un dir =
     (let paths = set_order W
                    (concat (map (\<lambda>(r, dirs). map (\<lambda>directory. path_join r [directory]) dirs)
                               (os_walk W dir)));
          unused_children = set_order W (filter (\<lambda>p. p \<notin> tg) paths)
      in filter (\<lambda>child. child \<notin> un) unused_children)"

fun relpaths :: "string \<Rightarrow> string \<Rightarrow> string list \<Rightarrow> error + string list" where
  "relpaths wd start [] = Inr []"
| "relpaths wd start (child # rest) =
     (case relpath wd child start of
        Inl e \<Rightarrow> Inl e
      | Inr r \<Rightarrow> (case relpaths wd start rest of Inl e \<Rightarrow> Inl e | Inr rs \<Rightarrow> Inr (r # rs)))"

text \<open>The second loop over the source sets.  Beside the source sets with their excludes it
  returns the directories handed to \<^verbatim>\<open>os.walk\<close>, in order.\<close>

fun compute_excludes ::
  "world \<Rightarrow> string \<Rightarrow> string set \<Rightarrow> string set \<Rightarrow> source_set list
   \<Rightarrow> error + (source_set list \<times> string list)" where
  "compute_excludes W root tg un [] = Inr ([], [])"
| "compute_excludes W root tg un (s # rest) =
     (case path s of
        None \<Rightarrow> Inl AttributeError
      | Some p \<Rightarrow>
          (let base = path_join root [source_base s];
               dir = path_join base [p]
           in case relpaths (cwd W) base (excluded_children W tg un dir) of
                Inl e \<Rightarrow> Inl e
              | Inr rels \<Rightarrow>
                  (case compute_excludes W root tg un rest of
                     Inl e \<Rightarrow> Inl e
                   | Inr (rest', walked) \<Rightarrow>
                       Inr (s\<lparr>excludes := excludes s @ rels\<rparr> # rest', dir # walked))))"

fun collect_targets :: "world \<Rightarrow> project \<Rightarrow> address list \<Rightarrow> address list \<Rightarrow> address list option" where
  "collect_targets W P [] ts = Some ts"
| "collect_targets W P (a # rest) ts =
     (case Target_walk W a (\<lambda>b acc. ([], OrderedSet_add acc b)) (\<lambda>b acc. source_target W P b) ts of
        None \<Rightarrow> None
      | Some ts' \<Rightarrow> collect_targets W P rest ts')"

record jvm_result =
  res_targets :: "address list"
  res_project :: project
  res_TEST_BASES :: "string set"
  res_walked :: "string list"

definition configure_jvm ::
  "world \<Rightarrow> project \<Rightarrow> string list \<Rightarrow> string list \<Rightarrow> string set \<Rightarrow> (error + jvm_result) option" where
  "configure_jvm W P extra_source_paths extra_test_paths tb =
     (case analyze_targets W (targets P)
             \<lparr>analyzed = [], targeted = {}, proj = P, TEST_BASES = tb\<rparr> of
        None \<Rightarrow> None
      | Some st \<Rightarrow>
          (case unexcludable_paths (root_dir (proj st)) (sources (proj st)) {} of
             None \<Rightarrow> None
           | Some (Inl e) \<Rightarrow> Some (Inl e)
           | Some (Inr un) \<Rightarrow>
               (case compute_excludes W (root_dir (proj st)) (targeted st) un
                       (sources (proj st)) of
                  Inl e \<Rightarrow> Some (Inl e)
                | Inr (srcs, walked) \<Rightarrow>
                    (case collect_targets W (proj st) (targets (proj st)) [] of
                       None \<Rightarrow> None
                     | Some ts \<Rightarrow>
                         (let ts' = OrderedSet_update ts
                                      (filter (\<lambda>a. a \<notin> set ts) (analyzed st));
                              (es, tb1) = new_source_sets (buildroot W) extra_source_paths False
                                            (TEST_BASES st);
                              (et, tb2) = new_source_sets (buildroot W) extra_test_paths True tb1
                          in Some (Inr \<lparr>res_targets = ts',
                                         res_project = (proj st)\<lparr>sources := srcs @ es @ et\<rparr>,
                                         res_TEST_BASES = tb2,
                                         res_walked = walked\<rparr>))))))"

section \<open>IdeGen.map_internal_jars\<close>

text \<open>
  The products \<^verbatim>\<open>jars\<close> and \<^verbatim>\<open>source_jars\<close> give for a target nothing or a mapping from base
  directory to file names; the mapping is the list of its items in iteration order.
  \<^verbatim>\<open>shutil.copy\<close> raises an I/O error when the copy cannot be made, which the environment
  decides.  Of the task, the model keeps the work directory, the project and the files in
  the two staging directories for internal jars, each with the file it was copied from;
  \<^verbatim>\<open>safe_mkdir(dir, clean=True)\<close> empties these directories.  An exception leaves the task
  as it is at that point, so a failure carries the state along.
\<close>

record staging_env =
  jars_product :: "address \<Rightarrow> (string \<times> string list) list option"
  source_jars_product :: "address \<Rightarrow> (string \<times> string list) list option"
  can_copy :: "string \<Rightarrow> string \<Rightarrow> bool"

record ide_gen =
  work_dir :: string
  ide_project :: project
  staged :: "(string \<times> string) list"

fun stage_source_jars ::
  "staging_env \<Rightarrow> string \<Rightarrow> (string \<times> string list) list \<Rightarrow> string option
   \<Rightarrow> (string \<times> string) list
   \<Rightarrow> (error \<times> (string \<times> string) list) + (string option \<times> (string \<times> string) list)" where
  "stage_source_jars E internal_source_jar_dir [] cp_source_jar files =
     Inr (cp_source_jar, files)"
| "stage_source_jars E internal_source_jar_dir ((base, jars) # rest) cp_source_jar files =
     (if length jars \<noteq> 1 then Inl (TaskError Multiple_source_jars, files)
      else (let jar = hd jars;
                cp = path_join internal_source_jar_dir [jar]
            in if \<not> can_copy E (path_join base [jar]) cp then Inl (IOError, files)
               else stage_source_jars E internal_source_jar_dir rest (Some cp)
                      (files @ [(path_join base [jar], cp)])))"

definition stage_sources_of ::
  "staging_env \<Rightarrow> string \<Rightarrow> address \<Rightarrow> (string \<times> string) list
   \<Rightarrow> (error \<times> (string \<times> string) list) + (string option \<times> (string \<times> string) list)" where
  "stage_sources_of E internal_source_jar_dir target files =
     (case source_jars_product E target of
        None \<Rightarrow> Inr (None, files)
      | Some mappings \<Rightarrow>
          if mappings = [] then Inr (None, files)
          else stage_source_jars E internal_source_jar_dir mappings None files)"

fun stage_jars ::
  "staging_env \<Rightarrow> string \<Rightarrow> string \<Rightarrow> address \<Rightarrow> (string \<times> string list) list \<Rightarrow> ide_gen
   \<Rightarrow> (error \<times> ide_gen) + ide_gen" where
  "stage_jars E internal_jar_dir internal_source_jar_dir target [] G = Inr G"
| "stage_jars E internal_jar_dir internal_source_jar_dir target ((base, jars) # rest) G =
     (if length jars \<noteq> 1 then Inl (TaskError Multiple_jars, G)
      else (let jar = hd jars;
                cp_jar = path_join internal_jar_dir [jar]
            in if \<not> can_copy E (path_join base [jar]) cp_jar then Inl (IOError, G)
               else (case stage_sources_of E internal_source_jar_dir target
                             (staged G @ [(path_join base [jar], cp_jar)]) of
                       Inl (e, files) \<Rightarrow> Inl (e, G\<lparr>staged := files\<rparr>)
                     | Inr (cp_source_jar, files) \<Rightarrow>
                         stage_jars E internal_jar_dir internal_source_jar_dir target rest
                           (G\<lparr>staged := files,
                              ide_project := (ide_project G)\<lparr>internal_jars :=
                                internal_jars (ide_project G) @
                                [ClasspathEntry cp_jar cp_source_jar None]\<rparr>\<rparr>))))"

fun stage_targets ::
  "staging_env \<Rightarrow> string \<Rightarrow> string \<Rightarrow> address list \<Rightarrow> ide_gen \<Rightarrow> (error \<times> ide_gen) + ide_gen" where
  "stage_targets E internal_jar_dir internal_source_jar_dir [] G = Inr G"
| "stage_targets E internal_jar_dir internal_source_jar_dir (target # rest) G =
     (case jars_product E target of
        None \<Rightarrow> stage_targets E internal_jar_dir internal_source_jar_dir rest G
      | Some mappings \<Rightarrow>
          if mappings = [] then stage_targets E internal_jar_dir internal_source_jar_dir rest G
          else (case stage_jars E internal_jar_dir internal_source_jar_dir target mappings G of
                  Inl x \<Rightarrow> Inl x
                | Inr G' \<Rightarrow> stage_targets E internal_jar_dir internal_source_jar_dir rest G'))"

definition map_internal_jars ::
  "staging_env \<Rightarrow> address list \<Rightarrow> ide_gen \<Rightarrow> (error \<times> ide_gen) + ide_gen" where
  "map_internal_jars E tgts G =
     (let internal_jar_dir = path_join (work_dir G) [''internal-libs''];
          internal_source_jar_dir = path_join (work_dir G) [''internal-libsources'']
      in stage_targets E internal_jar_dir internal_source_jar_dir tgts (G\<lparr>staged := []\<rparr>))"

text \<open>The error, if any, and the files in the staging directories when the call ends.\<close>

definition staging_outcome ::
  "(error \<times> ide_gen) + ide_gen \<Rightarrow> error option \<times> (string \<times> string) list" where
  "staging_outcome x = (case x of Inl (e, G) \<Rightarrow> (Some e, staged G) | Inr G \<Rightarrow> (None, staged G))"

definition is_TaskError :: "error \<Rightarrow> bool" where
  "is_TaskError e = (case e of TaskError _ \<Rightarrow> True | _ \<Rightarrow> False)"

text \<open>A task in the work directory \<^verbatim>\<open>/w\<close>, and products in which the target \<^verbatim>\<open>T\<close> has the
  two jars \<^verbatim>\<open>t-1.jar\<close> and \<^verbatim>\<open>t-2.jar\<close> under \<^verbatim>\<open>lib\<close>, every other target the one jar
  \<^verbatim>\<open>a.jar\<close>, and no target has source jars.\<close>

definition example_task :: ide_gen where
  "example_task =
     \<lparr>work_dir = ''/w'',
      ide_project = Project_init ''project'' False False False ''/r'' [] 5005 [] True,
      staged = []\<rparr>"

definition example_products :: staging_env where
  "example_products =
     \<lparr>jars_product = (\<lambda>t. if t = ''T'' then Some [(''lib'', [''t-1.jar'', ''t-2.jar''])]
                           else Some [(''lib'', [''a.jar''])]),
      source_jars_product = (\<lambda>t. None),
      can_copy = (\<lambda>src dst. True)\<rparr>"

text \<open>
  To say what a failing call leaves behind: the pairs of target, base directory and file
  names that the call meets, in order; the copies made for a pair (its primary jar, then the
  source jars of its target) and the classpath entry added for it; and the task with the
  copies and entries of a list of pairs added.  A list of pairs is staged well when all its
  copies succeed and the source jar mappings of its targets hold one file name for each base
  directory.
\<close>

definition pairs_of :: "staging_env \<Rightarrow> address list \<Rightarrow> (address \<times> string \<times> string list) list" where
  "pairs_of E tgts =
     concat (map (\<lambda>t. case jars_product E t of
                          None \<Rightarrow> []
                        | Some m \<Rightarrow> map (Pair t) m) tgts)"

definition unambiguous :: "address \<times> string \<times> string list \<Rightarrow> bool" where
  "unambiguous p \<longleftrightarrow> length (snd (snd p)) = 1"

definition source_items :: "staging_env \<Rightarrow> address \<Rightarrow> (string \<times> string list) list" where
  "source_items E t = (case source_jars_product E t of None \<Rightarrow> [] | Some m \<Rightarrow> m)"

definition source_copy :: "string \<Rightarrow> string \<times> string list \<Rightarrow> string \<times> string" where
  "source_copy internal_source_jar_dir item =
     (path_join (fst item) [hd (snd item)], path_join internal_source_jar_dir [hd (snd item)])"

definition pair_copies ::
  "staging_env \<Rightarrow> string \<Rightarrow> address \<times> string \<times> string list \<Rightarrow> (string \<times> string) list" where
  "pair_copies E work p =
     (path_join (fst (snd p)) [hd (snd (snd p))],
      path_join (path_join work [''internal-libs'']) [hd (snd (snd p))]) #
     map (source_copy (path_join work [''internal-libsources''])) (source_items E (fst p))"

definition pair_entry ::
  "staging_env \<Rightarrow> string \<Rightarrow> address \<times> string \<times> string list \<Rightarrow> classpath_entry" where
  "pair_entry E work p =
     ClasspathEntry (path_join (path_join work [''internal-libs'']) [hd (snd (snd p))])
       (if source_items E (fst p) = [] then None
        else Some (snd (source_copy (path_join work [''internal-libsources''])
                          (last (source_items E (fst p))))))
       None"

definition with_pairs ::
  "staging_env \<Rightarrow> ide_gen \<Rightarrow> (address \<times> string \<times> string list) list \<Rightarrow> ide_gen" where
  "with_pairs E G ps =
     G\<lparr>staged := staged G @ concat (map (pair_copies E (work_dir G)) ps),
       ide_project := (ide_project G)\<lparr>internal_jars :=
         internal_jars (ide_project G) @ map (pair_entry E (work_dir G)) ps\<rparr>\<rparr>"

definition staged_well :: "staging_env \<Rightarrow> string \<Rightarrow> (address \<times> string \<times> string list) list \<Rightarrow> bool" where
  "staged_well E work ps \<longleftrightarrow>
     (\<forall>p\<in>set ps.
        (\<forall>c\<in>set (pair_copies E work p). can_copy E (fst c) (snd c)) \<and>
        (\<forall>item\<in>set (source_items E (fst p)). length (snd item) = 1))"

section \<open>Notions used to state the properties\<close>

text \<open>The directory a source set owns: its root joined with its source base and, when it
  has one, its relative path.\<close>

definition owned_path :: "source_set \<Rightarrow> string" where
  "owned_path s =
     (case path s of
        None \<Rightarrow> path_join (ss_root_dir s) [source_base s]
      | Some p \<Rightarrow> path_join (ss_root_dir s) [source_base s, p])"




text \<open>The state in which \<^verbatim>\<open>configure_jvm\<close> starts its walk.\<close>

definition initial_state :: "project \<Rightarrow> string set \<Rightarrow> jvm_state" where
  "initial_state P tb = \<lparr>analyzed = [], targeted = {}, proj = P, TEST_BASES = tb\<rparr>"

text \<open>What holds of the state all through the walk over the targets of a project that
  starts without source sets: about the source sets, and about the flag \<^verbatim>\<open>has_tests\<close>.\<close>

definition sources_inv :: "project \<Rightarrow> string set \<Rightarrow> jvm_state \<Rightarrow> bool" where
  "sources_inv P tb st \<longleftrightarrow>
     root_dir (proj st) = root_dir P \<and>
     (\<forall>s\<in>set (sources (proj st)).
        path s \<noteq> None \<and> excludes s = [] \<and> ss_root_dir s = root_dir P) \<and>
     targeted st = owned_path ` set (sources (proj st)) \<and>
     distinct (map owned_path (sources (proj st))) \<and>
     TEST_BASES st = tb \<union> source_base ` {s \<in> set (sources (proj st)). is_test s}"

definition test_flagged :: "world \<Rightarrow> address \<Rightarrow> bool" where
  "test_flagged W a \<longleftrightarrow>
     target_sources (Target_get W a) \<noteq> [] \<and> target_is_test (Target_get W a)"

definition tests_inv :: "world \<Rightarrow> project \<Rightarrow> jvm_state \<Rightarrow> bool" where
  "tests_inv W P st \<longleftrightarrow>
     (has_tests (proj st) \<longleftrightarrow> has_tests P \<or> (\<exists>a\<in>set (analyzed st). test_flagged W a))"

text \<open>The project and the source sets of a run that returned.\<close>

definition returned :: "(error + 'a) option \<Rightarrow> 'a option" where
  "returned x = (case x of Some (Inr r) \<Rightarrow> Some r | _ \<Rightarrow> None)"

definition final_project :: "(error + jvm_result) option \<Rightarrow> project option" where
  "final_project x = map_option res_project (returned x)"

definition final_sources :: "(error + jvm_result) option \<Rightarrow> source_set list option" where
  "final_sources x = map_option sources (final_project x)"

text \<open>The source set that \<^verbatim>\<open>configure_jvm\<close> appends for an extra root.\<close>

definition extra_root :: "world \<Rightarrow> bool \<Rightarrow> string \<Rightarrow> source_set" where
  "extra_root W test p =
     \<lparr>ss_root_dir = buildroot W, source_base = p, path = None, is_test = test, excludes = []\<rparr>"

section \<open>Example projects\<close>

text \<open>A Java target with the given sources and no resources, alone in its BUILD file.\<close>

definition java_target :: "address \<Rightarrow> string \<Rightarrow> string list \<Rightarrow> bool \<Rightarrow> target" where
  "java_target a base srcs test =
     \<lparr>address = a, target_base = base, target_sources = srcs, has_sources = (srcs \<noteq> []),
      has_scala_sources = False, has_java_sources = True, target_is_scala = False,
      target_is_java = True, is_codegen = False, target_is_test = test, has_resources = False,
      resources = [], dependencies = [], buildfile_addresses = [a], ancestor_addresses = [],
      sibling_addresses = [], descendant_addresses = []\<rparr>"

text \<open>Iteration in insertion order is one faithful order of a set.\<close>

definition insertion_order :: "string list \<Rightarrow> string list" where
  "insertion_order xs = OrderedSet_update [] xs"

text \<open>Iteration with the longest element first is another faithful order.\<close>

definition longest_first :: "string list \<Rightarrow> string list" where
  "longest_first xs = rev (sort_key length (insertion_order xs))"

text \<open>A build root \<^verbatim>\<open>/r\<close> in which every address names a target with base \<^verbatim>\<open>a\<close> and
  the one source \<^verbatim>\<open>b/Foo.java\<close>, with the given tree found at \<^verbatim>\<open>/r/a/b\<close>.\<close>

definition example_world :: "bool \<Rightarrow> dirtree \<Rightarrow> world" where
  "example_world test t =
     \<lparr>buildroot = ''/r'', cwd = ''/r'',
      Target_get = (\<lambda>a. java_target a ''a'' [''b/Foo.java''] test),
      tree_at = (\<lambda>p. if p = ''/r/a/b'' then Some t else None),
      listdir = (\<lambda>p. None), isdir = (\<lambda>p. False), set_order = insertion_order\<rparr>"

definition example_project :: "address list \<Rightarrow> project" where
  "example_project tgts = Project_init ''project'' False False False ''/r'' [] 5005 tgts True"

section \<open>What a run of configure_jvm shows\<close>

text \<open>Two states of the walk that differ at most in the class-level \<^verbatim>\<open>TEST_BASES\<close>.\<close>

definition alike :: "jvm_state \<Rightarrow> jvm_state \<Rightarrow> bool" where
  "alike st st' \<longleftrightarrow>
     analyzed st = analyzed st' \<and> targeted st = targeted st' \<and> proj st = proj st'"

text \<open>What a call hands to its caller: no result when it does not return, the error when it
  raises, and otherwise the expanded targets, the project with its source sets, and the
  directories walked.\<close>

definition visible :: "jvm_result \<Rightarrow> address list \<times> project \<times> string list" where
  "visible r = (res_targets r, res_project r, res_walked r)"

definition outcome ::
  "(error + jvm_result) option \<Rightarrow> (error + address list \<times> project \<times> string list) option" where
  "outcome x = map_option (map_sum id visible) x"

section \<open>Normalized paths\<close>

text \<open>
  A clean name is a path component as a directory listing gives it: not empty, without
  separator, and neither \<^verbatim>\<open>.\<close> nor \<^verbatim>\<open>..\<close>.  A clean relative path is empty or consists of
  clean names with one separator between them; a clean absolute path is a separator
  followed by a clean relative path that is not empty.  A directory tree is clean when
  all its names are.
\<close>

definition clean_name :: "string \<Rightarrow> bool" where
  "clean_name c \<longleftrightarrow> c \<noteq> [] \<and> sep \<notin> set c \<and> c \<noteq> ''.'' \<and> c \<noteq> ''..''"

definition clean_relative :: "string \<Rightarrow> bool" where
  "clean_relative p \<longleftrightarrow> p = [] \<or> list_all clean_name (str_split sep p)"

definition clean_absolute :: "string \<Rightarrow> bool" where
  "clean_absolute r \<longleftrightarrow>
     (case r of [] \<Rightarrow> False | c # p \<Rightarrow> c = sep \<and> list_all clean_name (str_split sep p))"

fun clean_tree :: "dirtree \<Rightarrow> bool" where
  "clean_tree NoEntry = True"
| "clean_tree (Dir entries) =
     list_all (\<lambda>e. clean_name (fst e) \<and> clean_tree (snd e)) entries"

text \<open>The names of a clean relative path, and the absolute path with given names.\<close>

definition names_of :: "string \<Rightarrow> string list" where
  "names_of p = (if p = [] then [] else str_split sep p)"

definition absolute :: "string list \<Rightarrow> string" where
  "absolute cs = sep # str_join [sep] cs"

section \<open>Facts about splitting paths\<close>

lemma rev_drop_take_While: "rev (dropWhile P (rev s)) @ rev (takeWhile P (rev s)) = s"
proof -
  have "rev (takeWhile P (rev s) @ dropWhile P (rev s)) = rev (rev s)"
    by (simp only: takeWhile_dropWhile_id)
  then show ?thesis by (simp only: rev_append rev_rev_ident)
qed

lemma head_raw_prefix: "prefix (head_raw p) p"
  unfolding head_raw_def by (metis prefixI rev_drop_take_While)

lemma head_raw_last: "head_raw p \<noteq> [] \<Longrightarrow> last (head_raw p) = sep"
  unfolding head_raw_def
  by (metis (mono_tags, lifting) hd_dropWhile last_rev rev_is_Nil_conv)

lemma head_raw_append_sep: "head_raw (q @ sep # r) = q @ sep # head_raw r"
proof -
  have "dropWhile (\<lambda>c. c \<noteq> sep) (rev r @ sep # rev q) =
        (if \<forall>c\<in>set (rev r). c \<noteq> sep then sep # rev q else dropWhile (\<lambda>c. c \<noteq> sep) (rev r) @ sep # rev q)"
    by (auto simp: dropWhile_append)
  moreover have "(\<forall>c\<in>set (rev r). c \<noteq> sep) \<Longrightarrow> dropWhile (\<lambda>c. c \<noteq> sep) (rev r) = []"
    by simp
  ultimately show ?thesis unfolding head_raw_def by auto
qed

lemma head_raw_covers:
  assumes "prefix (q @ [sep]) p"
  shows "prefix (q @ [sep]) (head_raw p)"
proof -
  from assms obtain r where "p = q @ sep # r" by (auto simp: prefix_def)
  then show ?thesis by (simp add: head_raw_append_sep)
qed

lemma rstrip_prefix: "prefix (rstrip_sep s) s"
  unfolding rstrip_sep_def by (metis prefixI rev_drop_take_While)

lemma rstrip_append:
  assumes "r \<noteq> []" "last r \<noteq> sep"
  shows "rstrip_sep (r @ s) = r @ rstrip_sep s"
proof -
  have "hd (rev r) \<noteq> sep" using assms by (simp add: hd_rev)
  then have "dropWhile (\<lambda>c. c = sep) (rev r) = rev r"
    using assms(1) by (cases "rev r") auto
  then show ?thesis
    unfolding rstrip_sep_def by (auto simp: dropWhile_append)
qed

lemma rstrip_shorter: "s \<noteq> [] \<Longrightarrow> last s = sep \<Longrightarrow> length (rstrip_sep s) < length s"
proof -
  assume a: "s \<noteq> []" "last s = sep"
  then obtain t where "rev s = sep # t" by (cases "rev s") (auto simp: last_rev)
  then have "length (dropWhile (\<lambda>c. c = sep) (rev s)) \<le> length t"
    by (simp add: length_dropWhile_le)
  moreover have "length s = Suc (length t)" using \<open>rev s = sep # t\<close>
    by (metis length_Cons length_rev)
  ultimately show ?thesis unfolding rstrip_sep_def by simp
qed

lemma rstrip_last: "rstrip_sep s \<noteq> [] \<Longrightarrow> last (rstrip_sep s) \<noteq> sep"
  unfolding rstrip_sep_def
  by (metis (mono_tags, lifting) hd_dropWhile last_rev rev_is_Nil_conv)

lemma path_split_fst: "fst (path_split p) =
   (if head_raw p \<noteq> [] \<and> head_raw p \<noteq> replicate (length (head_raw p)) sep
    then rstrip_sep (head_raw p) else head_raw p)"
  by (simp add: path_split_def head_raw_def Let_def)

lemma split_head_prefix: "prefix (fst (path_split p)) p"
proof (cases "head_raw p \<noteq> [] \<and> head_raw p \<noteq> replicate (length (head_raw p)) sep")
  case True
  have "prefix (rstrip_sep (head_raw p)) (head_raw p)" by (rule rstrip_prefix)
  then have "prefix (rstrip_sep (head_raw p)) p"
    using head_raw_prefix [of p] by (rule prefix_order.trans)
  with True show ?thesis by (simp add: path_split_fst)
next
  case False
  then show ?thesis using head_raw_prefix [of p] by (auto simp: path_split_fst)
qed

lemma replicate_sep_last: "h \<noteq> [] \<Longrightarrow> h = replicate (length h) sep \<Longrightarrow> last h = sep"
  by (metis last_replicate length_0_conv)

lemma split_head_step:
  assumes r: "root \<noteq> []" "last root \<noteq> sep" and p: "prefix (root @ [sep]) p"
  shows "fst (path_split p) = root \<or>
         (prefix (root @ [sep]) (fst (path_split p)) \<and> length (fst (path_split p)) < length p)"
proof -
  from head_raw_covers [OF p] obtain r1 where h: "head_raw p = root @ sep # r1"
    by (auto simp: prefix_def)
  have ne: "head_raw p \<noteq> []" using h by simp
  have nrep: "head_raw p \<noteq> replicate (length (head_raw p)) sep"
  proof
    assume "head_raw p = replicate (length (head_raw p)) sep"
    then have "set (head_raw p) \<subseteq> {sep}" by (metis set_replicate_conv_if empty_subsetI subset_refl)
    moreover have "last root \<in> set (head_raw p)" using r(1) h by simp
    ultimately show False using r(2) by auto
  qed
  have f: "fst (path_split p) = root @ rstrip_sep (sep # r1)"
    using ne nrep h rstrip_append [OF r] by (simp add: path_split_fst)
  have len: "length (rstrip_sep (head_raw p)) < length (head_raw p)"
    using rstrip_shorter [OF ne head_raw_last [OF ne]] .
  have le: "length (head_raw p) \<le> length p"
    using head_raw_prefix [of p] by (simp add: prefix_length_le)
  show ?thesis
  proof (cases "rstrip_sep (sep # r1) = []")
    case True
    then show ?thesis using f by simp
  next
    case False
    have "prefix (rstrip_sep (sep # r1)) (sep # r1)" by (rule rstrip_prefix)
    with False obtain r2 where "rstrip_sep (sep # r1) = sep # r2"
      by (cases "rstrip_sep (sep # r1)") (auto simp: prefix_def)
    then have "prefix (root @ [sep]) (fst (path_split p))" using f by simp
    moreover have "length (fst (path_split p)) < length p"
      using len le ne nrep by (simp add: path_split_fst)
    ultimately show ?thesis by simp
  qed
qed

lemma ancestors_loop_terminates:
  assumes r: "root \<noteq> []" "last root \<noteq> sep"
  shows "prefix (root @ [sep]) p \<Longrightarrow> \<exists>y. ancestors_loop root p acc = Some y"
proof (induction "length p" arbitrary: p acc rule: less_induct)
  case less
  from split_head_step [OF r less.prems]
  show ?case
  proof
    assume "fst (path_split p) = root"
    then show ?thesis by (subst ancestors_loop.simps) (simp add: Let_def)
  next
    assume a: "prefix (root @ [sep]) (fst (path_split p)) \<and> length (fst (path_split p)) < length p"
    then obtain y where "ancestors_loop root (fst (path_split p)) (insert p acc) = Some y"
      using less.hyps by blast
    then show ?thesis by (subst ancestors_loop.simps) (simp add: Let_def)
  qed
qed

lemma split_head_root_prefix:
  assumes r: "root \<noteq> []" "last root \<noteq> sep" and e: "fst (path_split p) = root"
  shows "prefix (root @ [sep]) p"
proof -
  have ne: "head_raw p \<noteq> []" using e r(1) by (auto simp: path_split_fst split: if_splits)
  have nrep: "head_raw p \<noteq> replicate (length (head_raw p)) sep"
  proof
    assume a: "head_raw p = replicate (length (head_raw p)) sep"
    then have "fst (path_split p) = head_raw p" by (simp add: path_split_fst)
    then show False using e r(2) head_raw_last [OF ne] by simp
  qed
  have rs: "rstrip_sep (head_raw p) = root" using e ne nrep by (simp add: path_split_fst)
  have "prefix root (head_raw p)" using rstrip_prefix [of "head_raw p"] rs by simp
  then obtain z where z: "head_raw p = root @ z" by (auto simp: prefix_def)
  have "z \<noteq> []" using z r(2) head_raw_last [OF ne] by auto
  then have "last z = sep" using z head_raw_last [OF ne] by simp
  have "rstrip_sep (root @ z) = root @ rstrip_sep z" by (rule rstrip_append [OF r])
  then have "rstrip_sep z = []" using rs z by simp
  then have "hd z = sep" using \<open>z \<noteq> []\<close>
    unfolding rstrip_sep_def by simp
  then obtain z' where "z = sep # z'" using \<open>z \<noteq> []\<close> by (cases z) auto
  then have "prefix (root @ [sep]) (head_raw p)" using z by simp
  then show ?thesis using head_raw_prefix [of p] prefix_order.trans by blast
qed

lemma ancestors_loop_Some_prefix:
  assumes "ancestors_loop root p acc = Some y"
  shows "root \<noteq> [] \<longrightarrow> last root \<noteq> sep \<longrightarrow> prefix (root @ [sep]) p"
proof (rule ancestors_loop.raw_induct
    [where P = "\<lambda>root p acc y. root \<noteq> [] \<longrightarrow> last root \<noteq> sep \<longrightarrow> prefix (root @ [sep]) p", OF _ assms])
  fix f root p acc y
  assume 1: "\<And>root p acc y. f root p acc = Some y \<Longrightarrow>
               root \<noteq> [] \<longrightarrow> last root \<noteq> sep \<longrightarrow> prefix (root @ [sep]) p"
    "(let unexcludable_paths' = insert p acc; parent' = fst (path_split p)
      in if parent' = root then Some unexcludable_paths'
         else f root parent' unexcludable_paths') = Some y"
  show "root \<noteq> [] \<longrightarrow> last root \<noteq> sep \<longrightarrow> prefix (root @ [sep]) p"
  proof (intro impI)
    assume r: "root \<noteq> []" "last root \<noteq> sep"
    show "prefix (root @ [sep]) p"
    proof (cases "fst (path_split p) = root")
      case True
      then show ?thesis using split_head_root_prefix [OF r] by blast
    next
      case False
      then have "f root (fst (path_split p)) (insert p acc) = Some y"
        using 1(2) by (simp add: Let_def)
      then have "prefix (root @ [sep]) (fst (path_split p))" using 1(1) r by blast
      then show ?thesis using split_head_prefix [of p] prefix_order.trans by blast
    qed
  qed
qed

section \<open>The walk over the targets keeps an invariant\<close>

lemma walk_targets_invariant:
  assumes run: "walk_targets predicate work deps pending walked s = Some s'"
    and step: "\<And>a s. I s \<Longrightarrow> predicate a s \<Longrightarrow> I (snd (work a s))"
    and init: "I s"
  shows "I s'"
proof -
  have "(\<forall>a s. I s \<longrightarrow> predicate a s \<longrightarrow> I (snd (work a s))) \<longrightarrow> I s \<longrightarrow> I s'"
  proof (rule walk_targets.raw_induct
      [where P = "\<lambda>predicate work deps pending walked s s'.
                   (\<forall>a s. I s \<longrightarrow> predicate a s \<longrightarrow> I (snd (work a s))) \<longrightarrow> I s \<longrightarrow> I s'",
       OF _ run])
    fix f and predicate :: "address \<Rightarrow> 'a \<Rightarrow> bool" and work deps pending walked s y
    assume IH: "\<And>predicate work deps pending walked s y.
        f predicate work deps pending walked s = Some y \<Longrightarrow>
        (\<forall>a s. I s \<longrightarrow> predicate a s \<longrightarrow> I (snd (work a s))) \<longrightarrow> I s \<longrightarrow> I y"
      and body: "(case pending of
          [] \<Rightarrow> Some s
        | a # rest \<Rightarrow>
            if a \<in> walked then f predicate work deps rest walked s
            else (let r = (if predicate a s then work a s else ([], s))
                  in f predicate work deps (deps a @ fst r @ rest) (insert a walked) (snd r))) = Some y"
    show "(\<forall>a s. I s \<longrightarrow> predicate a s \<longrightarrow> I (snd (work a s))) \<longrightarrow> I s \<longrightarrow> I y"
    proof (intro impI)
      assume st: "\<forall>a s. I s \<longrightarrow> predicate a s \<longrightarrow> I (snd (work a s))" and i: "I s"
      show "I y"
      proof (cases pending)
        case Nil
        with body i show ?thesis by simp
      next
        case (Cons a rest)
        show ?thesis
        proof (cases "a \<in> walked")
          case True
          with Cons body have "f predicate work deps rest walked s = Some y" by simp
          from IH [OF this] st i show ?thesis by blast
        next
          case False
          let ?r = "if predicate a s then work a s else ([], s)"
          from False Cons body
          have "f predicate work deps (deps a @ fst ?r @ rest) (insert a walked) (snd ?r) = Some y"
            by (simp add: Let_def)
          moreover have "I (snd ?r)" using st i by auto
          ultimately show ?thesis using IH st by blast
        qed
      qed
    qed
  qed
  with step init show ?thesis by blast
qed

lemma analyze_targets_invariant:
  assumes "analyze_targets W as st = Some st'"
    and "\<And>a s. I s \<Longrightarrow> I (snd (configure_target W a s))"
    and "I st"
  shows "I st'"
  using assms
proof (induction as arbitrary: st)
  case Nil
  then show ?case by simp
next
  case (Cons a as)
  from Cons.prems(1) obtain st1 where
    w: "Target_walk W a (configure_target W) (\<lambda>b s. source_target W (proj s) b) st = Some st1"
    and r: "analyze_targets W as st1 = Some st'"
    by (auto split: option.splits)
  have "I st1"
  proof (rule walk_targets_invariant [OF w [unfolded Target_walk_def], where I = I])
    show "\<And>a s. I s \<Longrightarrow> source_target W (proj s) a \<Longrightarrow> I (snd (configure_target W a s))"
      using Cons.prems(2) by blast
    show "I st" by (rule Cons.prems(3))
  qed
  with Cons.IH [OF r Cons.prems(2)] show ?case by blast
qed

section \<open>The source sets registered during the walk\<close>

lemma path_join_two: "path_join (path_join r [b]) [p] = path_join r [b, p]"
  by (simp add: path_join_def)

lemma sources_inv_same:
  assumes "sources_inv P tb st"
    and "root_dir (proj st') = root_dir (proj st)"
    and "sources (proj st') = sources (proj st)"
    and "targeted st' = targeted st"
    and "TEST_BASES st' = TEST_BASES st"
  shows "sources_inv P tb st'"
  using assms by (simp add: sources_inv_def)

lemma register_path_sources_inv:
  assumes inv: "sources_inv P tb st"
  shows "sources_inv P tb (register_path rb test st p)"
proof (cases "path_join (path_join (root_dir (proj st)) [rb]) [p] \<in> targeted st")
  case True
  then show ?thesis using assms by (simp add: register_path_def Let_def)
next
  case False
  let ?s = "\<lparr>ss_root_dir = root_dir (proj st), source_base = rb, path = Some p,
             is_test = test, excludes = []\<rparr>"
  let ?st = "register_path rb test st p"
  have o: "owned_path ?s = path_join (path_join (root_dir (proj st)) [rb]) [p]"
    by (simp add: owned_path_def path_join_two)
  have src: "sources (proj ?st) = sources (proj st) @ [?s]"
    and tg: "targeted ?st = insert (owned_path ?s) (targeted st)"
    and tbs: "TEST_BASES ?st = (if test then insert rb (TEST_BASES st) else TEST_BASES st)"
    and rd: "root_dir (proj ?st) = root_dir (proj st)"
    using False by (simp_all add: register_path_def Let_def SourceSet_init_def o)
  from inv have i1: "root_dir (proj st) = root_dir P"
    and i2: "\<forall>s\<in>set (sources (proj st)).
        path s \<noteq> None \<and> excludes s = [] \<and> ss_root_dir s = root_dir P"
    and i3: "targeted st = owned_path ` set (sources (proj st))"
    and i4: "distinct (map owned_path (sources (proj st)))"
    and i5: "TEST_BASES st = tb \<union> source_base ` {s \<in> set (sources (proj st)). is_test s}"
    by (simp_all add: sources_inv_def)
  have n: "owned_path ?s \<notin> owned_path ` set (sources (proj st))"
    using False i3 o by simp
  have a: "root_dir (proj ?st) = root_dir P" using rd i1 by simp
  have b: "\<forall>s\<in>set (sources (proj ?st)).
        path s \<noteq> None \<and> excludes s = [] \<and> ss_root_dir s = root_dir P"
    using i2 i1 by (simp add: src)
  have c: "targeted ?st = owned_path ` set (sources (proj ?st))"
    using i3 by (simp add: src tg)
  have d: "distinct (map owned_path (sources (proj ?st)))"
    using i4 n by (simp add: src)
  have "{s \<in> set (sources (proj ?st)). is_test s} =
        (if test then insert ?s {s \<in> set (sources (proj st)). is_test s}
         else {s \<in> set (sources (proj st)). is_test s})"
    by (auto simp: src)
  then have e: "TEST_BASES ?st = tb \<union> source_base ` {s \<in> set (sources (proj ?st)). is_test s}"
    using i5 by (simp add: tbs)
  from a b c d e show ?thesis unfolding sources_inv_def by blast
qed

lemma register_path_frame:
  "analyzed (register_path rb test st p) = analyzed st"
  "has_tests (proj (register_path rb test st p)) = has_tests (proj st)"
  by (simp_all add: register_path_def Let_def SourceSet_init_def)

lemma foldl_register_path_sources_inv:
  "sources_inv P tb st \<Longrightarrow> sources_inv P tb (foldl (register_path rb test) st ps)"
  by (induction ps arbitrary: st) (simp_all add: register_path_sources_inv)

lemma foldl_register_path_frame:
  "analyzed (foldl (register_path rb test) st ps) = analyzed st"
  "has_tests (proj (foldl (register_path rb test) st ps)) = has_tests (proj st)"
  by (induction ps arbitrary: st) (simp_all add: register_path_frame)

lemma configure_source_sets_sources_inv:
  "sources_inv P tb st \<Longrightarrow> sources_inv P tb (configure_source_sets W rb srcs test st)"
  by (simp add: configure_source_sets_def Let_def foldl_register_path_sources_inv)

lemma configure_source_sets_frame:
  "analyzed (configure_source_sets W rb srcs test st) = analyzed st"
  "has_tests (proj (configure_source_sets W rb srcs test st)) = has_tests (proj st)"
  by (simp_all add: configure_source_sets_def Let_def foldl_register_path_frame)

lemma configure_resources_sources_inv:
  assumes "sources_inv P tb st"
  shows "sources_inv P tb (configure_resources W groups st basedir)"
proof -
  have "sources_inv P tb (st\<lparr>proj := (proj st)\<lparr>resource_extensions := e\<rparr>\<rparr>)" for e
    by (rule sources_inv_same [OF assms]) simp_all
  then show ?thesis
    by (simp add: configure_resources_def Let_def configure_source_sets_sources_inv)
qed

lemma configure_resources_frame:
  "analyzed (configure_resources W groups st basedir) = analyzed st"
  "has_tests (proj (configure_resources W groups st basedir)) = has_tests (proj st)"
  by (simp_all add: configure_resources_def Let_def configure_source_sets_frame)

lemma foldl_configure_resources_sources_inv:
  "sources_inv P tb st \<Longrightarrow> sources_inv P tb (foldl (configure_resources W groups) st bs)"
  by (induction bs arbitrary: st) (simp_all add: configure_resources_sources_inv)

lemma foldl_configure_resources_frame:
  "analyzed (foldl (configure_resources W groups) st bs) = analyzed st"
  "has_tests (proj (foldl (configure_resources W groups) st bs)) = has_tests (proj st)"
  by (induction bs arbitrary: st) (simp_all add: configure_resources_frame)

lemma configure_target_sources_inv:
  assumes inv: "sources_inv P tb st"
  shows "sources_inv P tb (snd (configure_target W a st))"
proof (cases "a \<in> set (analyzed st)")
  case True
  then show ?thesis using inv by (simp add: configure_target_def)
next
  case False
  define t where "t = Target_get W a"
  define st1 where "st1 = st\<lparr>analyzed := analyzed st @ [a]\<rparr>"
  define st2 where "st2 = st1\<lparr>proj := (proj st1)\<lparr>has_scala :=
                      \<not> skip_scala (proj st1) \<and> (has_scala (proj st1) \<or> is_scala t)\<rparr>\<rparr>"
  define st3 where "st3 = (if has_resources t
                    then foldl (configure_resources W (resources t)) st2
                           (set_order W (map fst (resources t)))
                    else st2)"
  define st3' where "st3' = st3\<lparr>proj := (proj st3)\<lparr>has_tests :=
                                   has_tests (proj st3) \<or> target_is_test t\<rparr>\<rparr>"
  define st4 where "st4 = (if target_sources t \<noteq> []
                    then configure_source_sets W (target_base t) (target_sources t)
                           (target_is_test t) st3'
                    else st3)"
  have r: "snd (configure_target W a st) = st4"
    using False
    by (simp add: configure_target_def Let_def st4_def st3'_def st3_def st2_def st1_def t_def)
  have "sources_inv P tb st1"
    by (rule sources_inv_same [OF inv]) (simp_all add: st1_def)
  then have "sources_inv P tb st2"
    by (rule sources_inv_same) (simp_all add: st2_def)
  then have 3: "sources_inv P tb st3"
    by (simp add: st3_def foldl_configure_resources_sources_inv)
  then have "sources_inv P tb st3'"
    by (rule sources_inv_same) (simp_all add: st3'_def)
  with 3 have "sources_inv P tb st4"
    by (simp add: st4_def configure_source_sets_sources_inv)
  with r show ?thesis by simp
qed

lemma configure_target_tests_inv:
  assumes inv: "tests_inv W P st"
  shows "tests_inv W P (snd (configure_target W a st))"
proof (cases "a \<in> set (analyzed st)")
  case True
  then show ?thesis using inv by (simp add: configure_target_def)
next
  case False
  have an: "analyzed (snd (configure_target W a st)) = analyzed st @ [a]"
    using False
    by (simp add: configure_target_def Let_def configure_source_sets_frame
        foldl_configure_resources_frame)
  have ht: "has_tests (proj (snd (configure_target W a st))) =
      (has_tests (proj st) \<or> test_flagged W a)"
    using False
    by (simp add: configure_target_def Let_def configure_source_sets_frame
        foldl_configure_resources_frame test_flagged_def)
  show ?thesis using inv unfolding tests_inv_def an ht by auto
qed

lemma initial_sources_inv: "sources P = [] \<Longrightarrow> sources_inv P tb (initial_state P tb)"
  by (simp add: sources_inv_def initial_state_def)

lemma initial_tests_inv: "tests_inv W P (initial_state P tb)"
  by (simp add: tests_inv_def initial_state_def)

section \<open>The phases of configure_jvm\<close>

lemma analyze_targets_sources_inv:
  assumes "analyze_targets W as (initial_state P tb) = Some st" and "sources P = []"
  shows "sources_inv P tb st"
  by (rule analyze_targets_invariant [OF assms(1), where I = "sources_inv P tb"])
     (simp_all add: configure_target_sources_inv initial_sources_inv assms(2))

lemma analyze_targets_tests_inv:
  assumes "analyze_targets W as (initial_state P tb) = Some st"
  shows "tests_inv W P st"
  by (rule analyze_targets_invariant [OF assms(1), where I = "tests_inv W P"])
     (simp_all add: configure_target_tests_inv initial_tests_inv)





lemma relpaths_result:
  "relpaths wd start cs = Inr rs \<Longrightarrow> list_all2 (\<lambda>c r. relpath wd c start = Inr r) cs rs"
  by (induction cs arbitrary: rs) (auto split: sum.splits)


lemma compute_excludes_result:
  assumes "compute_excludes W root tg un srcs = Inr (srcs', walked)"
  shows "list_all2 (\<lambda>s s'. \<exists>p rels. path s = Some p \<and>
            relpaths (cwd W) (path_join root [source_base s])
              (excluded_children W tg un (path_join root [source_base s, p])) = Inr rels \<and>
            s' = s\<lparr>excludes := excludes s @ rels\<rparr>) srcs srcs' \<and>
         walked = map (\<lambda>s. path_join root [source_base s, the (path s)]) srcs"
  using assms
proof (induction srcs arbitrary: srcs' walked)
  case Nil
  then show ?case by simp
next
  case (Cons s srcs)
  from Cons.prems obtain p rels rest' w' where p: "path s = Some p"
    and rl: "relpaths (cwd W) (path_join root [source_base s])
              (excluded_children W tg un (path_join root [source_base s, p])) = Inr rels"
    and r: "compute_excludes W root tg un srcs = Inr (rest', w')"
    and e: "srcs' = s\<lparr>excludes := excludes s @ rels\<rparr> # rest'"
       "walked = path_join root [source_base s, p] # w'"
    by (auto simp: Let_def path_join_two split: option.splits sum.splits)
  from Cons.IH [OF r] p rl e show ?case by auto
qed

lemma new_source_sets_result:
  "new_source_sets root ps test tb =
     (map (\<lambda>p. \<lparr>ss_root_dir = root, source_base = p, path = None, is_test = test,
                 excludes = []\<rparr>) ps,
      if test then tb \<union> set ps else tb)"
  by (induction ps arbitrary: tb) (auto simp: SourceSet_init_def Let_def)

lemma configure_jvm_phases:
  assumes "configure_jvm W P es et tb = Some (Inr r)"
  obtains st un srcs ts where
    "analyze_targets W (targets P) (initial_state P tb) = Some st"
    "unexcludable_paths (root_dir (proj st)) (sources (proj st)) {} = Some (Inr un)"
    "compute_excludes W (root_dir (proj st)) (targeted st) un (sources (proj st))
       = Inr (srcs, res_walked r)"
    "collect_targets W (proj st) (targets (proj st)) [] = Some ts"
    "res_targets r = OrderedSet_update ts (filter (\<lambda>a. a \<notin> set ts) (analyzed st))"
    "res_project r = (proj st)\<lparr>sources := srcs
        @ map (\<lambda>p. \<lparr>ss_root_dir = buildroot W, source_base = p, path = None, is_test = False,
                 excludes = []\<rparr>) es
        @ map (\<lambda>p. \<lparr>ss_root_dir = buildroot W, source_base = p, path = None, is_test = True,
                 excludes = []\<rparr>) et\<rparr>"
    "res_TEST_BASES r = TEST_BASES st \<union> set et"
  using assms
  unfolding configure_jvm_def initial_state_def [symmetric] new_source_sets_result
  by (auto simp: Let_def split: option.splits sum.splits)

section \<open>The final list of source sets\<close>


lemma final_sources_shape:
  assumes run: "configure_jvm W P es et tb = Some (Inr r)"
  obtains st un srcs where
    "analyze_targets W (targets P) (initial_state P tb) = Some st"
    "unexcludable_paths (root_dir (proj st)) (sources (proj st)) {} = Some (Inr un)"
    "compute_excludes W (root_dir (proj st)) (targeted st) un (sources (proj st))
       = Inr (srcs, res_walked r)"
    "sources (res_project r) = srcs @ map (extra_root W False) es @ map (extra_root W True) et"
    "has_tests (res_project r) = has_tests (proj st)"
    "res_TEST_BASES r = TEST_BASES st \<union> set et"
proof -
  from configure_jvm_phases [OF run] obtain st un srcs ts where
    a: "analyze_targets W (targets P) (initial_state P tb) = Some st"
    and u: "unexcludable_paths (root_dir (proj st)) (sources (proj st)) {} = Some (Inr un)"
    and c: "compute_excludes W (root_dir (proj st)) (targeted st) un (sources (proj st))
       = Inr (srcs, res_walked r)"
    and p: "res_project r = (proj st)\<lparr>sources := srcs
        @ map (\<lambda>p. \<lparr>ss_root_dir = buildroot W, source_base = p, path = None, is_test = False,
                 excludes = []\<rparr>) es
        @ map (\<lambda>p. \<lparr>ss_root_dir = buildroot W, source_base = p, path = None, is_test = True,
                 excludes = []\<rparr>) et\<rparr>"
    and t: "res_TEST_BASES r = TEST_BASES st \<union> set et"
    by metis
  have e: "extra_root W b = (\<lambda>p. \<lparr>ss_root_dir = buildroot W, source_base = p, path = None,
      is_test = b, excludes = []\<rparr>)" for b
    by (rule ext) (simp add: extra_root_def)
  have "sources (res_project r) = srcs @ map (extra_root W False) es @ map (extra_root W True) et"
    by (simp add: p e)
  moreover have "has_tests (res_project r) = has_tests (proj st)" by (simp add: p)
  ultimately show ?thesis using a u c t that by blast
qed




lemma returned_map_option:
  assumes "map_option f (returned x) = Some y"
  obtains r where "x = Some (Inr r)" "f r = y"
  using assms by (auto simp: returned_def split: option.splits sum.splits)

section \<open>Where the excludes come from\<close>




lemma OrderedSet_update_set: "set (OrderedSet_update xs ys) = set xs \<union> set ys"
  unfolding OrderedSet_update_def
  by (induction ys arbitrary: xs) (auto simp: OrderedSet_add_def)

lemma OrderedSet_update_distinct: "distinct xs \<Longrightarrow> distinct (OrderedSet_update xs ys)"
  unfolding OrderedSet_update_def
  by (induction ys arbitrary: xs) (auto simp: OrderedSet_add_def)

lemma valid_insertion_order: "valid_set_order insertion_order"
  by (simp add: valid_set_order_def insertion_order_def OrderedSet_update_set
      OrderedSet_update_distinct)


section \<open>Termination of the ancestor loop\<close>

text \<open>
  C10 (as amended).  For a project root that is a non-empty path not ending in the
  separator, the ancestor-accumulation loop of exclude computation returns exactly when the
  path it starts from begins with the root followed by a separator.  This covers every
  path strictly beneath the root, and also the root itself written with a trailing
  separator, which is what joining the root with an empty source base and an empty
  relative path gives.  For any other starting path the loop never returns.
\<close>

theorem ancestors_loop_terminates_iff:
  assumes "root \<noteq> []" and "last root \<noteq> sep"
  shows "(\<exists>y. ancestors_loop root parent acc = Some y) \<longleftrightarrow> prefix (root @ [sep]) parent"
proof
  assume "\<exists>y. ancestors_loop root parent acc = Some y"
  then obtain y where "ancestors_loop root parent acc = Some y" ..
  from ancestors_loop_Some_prefix [OF this] assms
  show "prefix (root @ [sep]) parent" by blast
next
  assume "prefix (root @ [sep]) parent"
  then show "\<exists>y. ancestors_loop root parent acc = Some y"
    by (rule ancestors_loop_terminates [OF assms])
qed

theorem ancestors_loop_terminates_iff_witness:
  "(\<exists>y. ancestors_loop ''/r'' (path_join ''/r'' [''a'', ''b'']) {} = Some y) \<and>
   prefix (''/r'' @ [sep]) (path_join ''/r'' [''a'', ''b''])"
proof -
  have p: "prefix (''/r'' @ [sep]) (path_join ''/r'' [''a'', ''b''])"
    by (simp add: path_join_def join2_def startswith_sep_def endswith_sep_def sep_def)
  have r: "''/r'' \<noteq> []" "last ''/r'' \<noteq> sep" by (simp_all add: sep_def)
  from ancestors_loop_terminates_iff [OF r, of "path_join ''/r'' [''a'', ''b'']" "{}"] p
  show ?thesis by blast
qed

text \<open>
  The claim as written fails where source base and relative path are both empty: the
  owned path is then the project root itself (with a trailing separator), not a path
  strictly beneath it, and the loop returns after one round.
\<close>

theorem ancestors_loop_root_itself_counterexample:
  "ancestors_loop ''/r'' (path_join ''/r'' ['''', '''']) {} = Some {''/r/''} \<and>
   \<not> lies_strictly_beneath ''/r'' (path_join ''/r'' ['''', ''''])"
  by (simp add: ancestors_loop.simps path_join_def join2_def startswith_sep_def
      endswith_sep_def sep_def path_split_def rstrip_sep_def Let_def
      lies_strictly_beneath_def path_components_def)

section \<open>Uniqueness of the identity keys\<close>





section \<open>The flag has_tests\<close>

lemma configure_target_has_tests:
  "has_tests (proj (snd (configure_target W a st))) =
     (has_tests (proj st) \<or> a \<notin> set (analyzed st) \<and> test_flagged W a)"
  by (simp add: configure_target_def Let_def configure_source_sets_frame
      foldl_configure_resources_frame test_flagged_def)

lemma configure_python_has_tests:
  assumes "configure_python W P sr tr lr tb = Inr (P', tb')"
  shows "has_tests P' = has_tests P" and "sources P' = sources P" and "targets P' = targets P"
  using assms
  by (auto simp: configure_python_def Let_def split: prod.splits sum.splits)

text \<open>
  C7 (as amended).  After configuration (\<^verbatim>\<open>configure_python\<close>, then \<^verbatim>\<open>configure_jvm\<close>) has
  returned, \<^verbatim>\<open>has_tests\<close> is true if and only if it was true before or some target
  handed to \<^verbatim>\<open>configure_target\<close> has sources and is flagged as a test.  Test roots of
  \<^verbatim>\<open>configure_python\<close> and extra test roots of \<^verbatim>\<open>configure_jvm\<close> do not set the flag.
  Absorbing a target never resets the flag: after \<^verbatim>\<open>configure_target\<close> it is true if it
  was true before, or if the target is new, has sources and is flagged as a test.
\<close>

theorem has_tests_iff_test_target_analyzed:
  assumes py: "configure_python W P0 source_roots test_roots lib_roots tb0 = Inr (P, tb)"
    and jvm: "configure_jvm W P extra_source_paths extra_test_paths tb = Some (Inr r)"
  shows "(\<exists>st. analyze_targets W (targets P) (initial_state P tb) = Some st \<and>
            (has_tests (res_project r) \<longleftrightarrow>
               has_tests P0 \<or> (\<exists>a\<in>set (analyzed st). test_flagged W a))) \<and>
         (\<forall>a st. has_tests (proj (snd (configure_target W a st))) =
            (has_tests (proj st) \<or> a \<notin> set (analyzed st) \<and> test_flagged W a))"
proof -
  from final_sources_shape [OF jvm] obtain st where
    a: "analyze_targets W (targets P) (initial_state P tb) = Some st"
    and h: "has_tests (res_project r) = has_tests (proj st)"
    by metis
  from analyze_targets_tests_inv [OF a]
  have "has_tests (proj st) \<longleftrightarrow> has_tests P \<or> (\<exists>a\<in>set (analyzed st). test_flagged W a)"
    by (simp add: tests_inv_def)
  with h configure_python_has_tests(1) [OF py] a configure_target_has_tests
  show ?thesis by blast
qed

theorem has_tests_iff_test_target_analyzed_witness:
  "configure_python (example_world True (Dir [])) (example_project [''a:a''])
     [] [] [] {} = Inr (example_project [''a:a''], {}) \<and>
   final_project (configure_jvm (example_world True (Dir [])) (example_project [''a:a''])
     [] [] {}) \<noteq> None \<and>
   analyze_targets (example_world True (Dir [])) (targets (example_project [''a:a'']))
     (initial_state (example_project [''a:a'']) {}) \<noteq> None \<and>
   has_tests (the (final_project (configure_jvm (example_world True (Dir []))
     (example_project [''a:a'']) [] [] {}))) \<and>
   test_flagged (example_world True (Dir [])) ''a:a''"
proof -
  let ?W = "example_world True (Dir [])" and ?P = "example_project [''a:a'']"
  have py: "configure_python ?W ?P [] [] [] {} = Inr (?P, {})"
    by (simp add: configure_python_def example_project_def Project_init_def)
  have ret: "final_project (configure_jvm ?W ?P [] [] {}) \<noteq> None" by code_simp
  then obtain r where jvm: "configure_jvm ?W ?P [] [] {} = Some (Inr r)"
    by (auto simp: final_project_def returned_def split: option.splits sum.splits)
  have an: "map_option analyzed (analyze_targets ?W (targets ?P) (initial_state ?P {}))
      = Some [''a:a'']"
    by code_simp
  have tf: "test_flagged ?W ''a:a''" by code_simp
  from has_tests_iff_test_target_analyzed [OF py jvm] obtain st where
    "analyze_targets ?W (targets ?P) (initial_state ?P {}) = Some st"
    "has_tests (res_project r) \<longleftrightarrow> has_tests ?P \<or> (\<exists>a\<in>set (analyzed st). test_flagged ?W a)"
    by blast
  with an tf have "has_tests (res_project r)" by simp
  with py ret tf an show ?thesis by (auto simp: jvm final_project_def returned_def)
qed

text \<open>
  The claim as written fails for an extra test root: with no target at all and the extra
  test root \<^verbatim>\<open>tests\<close>, the final list holds a source set flagged as a test, and
  \<^verbatim>\<open>has_tests\<close> is false.
\<close>

theorem has_tests_extra_test_root_counterexample:
  "map_option has_tests (final_project (configure_jvm (example_world False (Dir []))
      (example_project []) [] [''tests''] {})) = Some False \<and>
   map_option (map is_test) (final_sources (configure_jvm (example_world False (Dir []))
      (example_project []) [] [''tests''] {})) = Some [True]"
  by code_simp

section \<open>The extra roots\<close>





section \<open>The class-level set TEST_BASES\<close>

lemma compute_excludes_test_bases:
  assumes "compute_excludes W root tg un srcs = Inr (srcs', walked)"
  shows "source_base ` {s \<in> set srcs'. is_test s} = source_base ` {s \<in> set srcs. is_test s}"
proof -
  from compute_excludes_result [OF assms]
  have "list_all2 (\<lambda>s s'. \<exists>rels. s' = s\<lparr>excludes := excludes s @ rels\<rparr>) srcs srcs'"
    by (auto elim: list_all2_mono)
  then have "list_all2 (\<lambda>s s'. source_base s' = source_base s \<and> is_test s' = is_test s) srcs srcs'"
    by (rule list_all2_mono) auto
  then have "map (\<lambda>s. (source_base s, is_test s)) srcs' = map (\<lambda>s. (source_base s, is_test s)) srcs"
    by (induction srcs srcs' rule: list_all2_induct) auto
  then have e: "(\<lambda>s. (source_base s, is_test s)) ` set srcs' = (\<lambda>s. (source_base s, is_test s)) ` set srcs"
    by (metis set_map)
  have "source_base ` {s \<in> set xs. is_test s} =
      fst ` {q \<in> (\<lambda>s. (source_base s, is_test s)) ` set xs. snd q}" for xs :: "source_set list"
    by force
  with e show ?thesis by simp
qed

lemma configure_jvm_TEST_BASES:
  assumes run: "configure_jvm W P es et tb = Some (Inr r)" and fresh: "sources P = []"
  shows "res_TEST_BASES r = tb \<union> source_base ` {s \<in> set (sources (res_project r)). is_test s}"
proof -
  from final_sources_shape [OF run] obtain st un srcs where
    a: "analyze_targets W (targets P) (initial_state P tb) = Some st"
    and c: "compute_excludes W (root_dir (proj st)) (targeted st) un (sources (proj st))
       = Inr (srcs, res_walked r)"
    and s: "sources (res_project r) = srcs @ map (extra_root W False) es @ map (extra_root W True) et"
    and t: "res_TEST_BASES r = TEST_BASES st \<union> set et"
    by metis
  have inv: "sources_inv P tb st" by (rule analyze_targets_sources_inv [OF a fresh])
  then have 1: "TEST_BASES st = tb \<union> source_base ` {s \<in> set (sources (proj st)). is_test s}"
    by (simp add: sources_inv_def)
  have 2: "source_base ` {s \<in> set srcs. is_test s}
      = source_base ` {s \<in> set (sources (proj st)). is_test s}"
    by (rule compute_excludes_test_bases [OF c])
  have 3: "{s \<in> set (sources (res_project r)). is_test s} =
      {s \<in> set srcs. is_test s} \<union> extra_root W True ` set et"
    by (auto simp: s extra_root_def)
  have 4: "source_base ` (extra_root W True ` set et) = set et"
    by (force simp: extra_root_def)
  show ?thesis unfolding t 1 3 image_Un 4 2 by blast
qed

lemma lib_source_sets_TEST_BASES: "snd (lib_source_sets W root names tb) = tb"
  by (induction names arbitrary: tb)
     (simp_all add: SourceSet_init_def Let_def case_prod_beta)

lemma configure_py_libs_TEST_BASES:
  "configure_py_libs W roots libs tb = Inr (libs', tb') \<Longrightarrow> tb' = tb"
proof (induction roots arbitrary: libs)
  case Nil
  then show ?case by simp
next
  case (Cons root roots)
  from Cons.prems obtain names where
    "configure_py_libs W roots (libs @ fst (lib_source_sets W root names tb))
       (snd (lib_source_sets W root names tb)) = Inr (libs', tb')"
    by (auto simp: Let_def case_prod_beta split: option.splits)
  then show ?case using Cons.IH by (simp add: lib_source_sets_TEST_BASES)
qed

lemma configure_python_TEST_BASES:
  assumes "configure_python W P sr tr lr tb = Inr (P', tb')"
  shows "tb' = tb \<union> set tr"
proof -
  from assms obtain libs where
    "configure_py_libs W lr (py_libs P) (tb \<union> set tr) = Inr (libs, tb')"
    by (auto simp: configure_python_def new_source_sets_result Let_def split: sum.splits)
  then show ?thesis by (rule configure_py_libs_TEST_BASES)
qed

text \<open>
  C9.  Constructing a source set with the test flag adds its source base to
  \<^verbatim>\<open>SourceSet.TEST_BASES\<close>; constructing one without the flag leaves the set as it was.
  The set belongs to no source set and to no project, and nothing removes an element:
  after \<^verbatim>\<open>configure_python\<close> it holds what it held plus the python test roots, after
  \<^verbatim>\<open>configure_jvm\<close> what it held plus the source bases of the test source sets of that
  project, and a later run on another project starts from the set the earlier run left and
  still holds all of it when it ends.
\<close>

theorem TEST_BASES_shared_never_cleared:
  assumes py: "configure_python W1 P0 source_roots test_roots lib_roots tb0 = Inr (P1, tb1)"
    and fresh1: "sources P0 = []"
    and run1: "configure_jvm W1 P1 es1 et1 tb1 = Some (Inr r1)"
    and fresh2: "sources P2 = []"
    and run2: "configure_jvm W2 P2 es2 et2 (res_TEST_BASES r1) = Some (Inr r2)"
  shows "snd (SourceSet_init root base p True tb) = insert base tb \<and>
         snd (SourceSet_init root base p False tb) = tb \<and>
         tb1 = tb0 \<union> set test_roots \<and>
         res_TEST_BASES r1 =
           tb1 \<union> source_base ` {s \<in> set (sources (res_project r1)). is_test s} \<and>
         res_TEST_BASES r2 =
           res_TEST_BASES r1 \<union> source_base ` {s \<in> set (sources (res_project r2)). is_test s}"
proof -
  have "sources P1 = []" using configure_python_has_tests(2) [OF py] fresh1 by simp
  from configure_jvm_TEST_BASES [OF run1 this] configure_jvm_TEST_BASES [OF run2 fresh2]
    configure_python_TEST_BASES [OF py]
  show ?thesis by (simp add: SourceSet_init_def)
qed

theorem TEST_BASES_shared_never_cleared_witness:
  "configure_python (example_world True (Dir [])) (example_project [''a:a''])
     [] [''py/tests''] [] {} =
     Inr ((example_project [''a:a''])\<lparr>py_sources :=
            [\<lparr>ss_root_dir = ''/r'', source_base = ''py/tests'', path = None, is_test = True,
              excludes = []\<rparr>]\<rparr>, {''py/tests''}) \<and>
   sources (example_project [''a:a'']) = [] \<and> sources (example_project []) = [] \<and>
   map_option res_TEST_BASES
     (returned (configure_jvm (example_world True (Dir []))
        ((example_project [''a:a''])\<lparr>py_sources :=
            [\<lparr>ss_root_dir = ''/r'', source_base = ''py/tests'', path = None, is_test = True,
              excludes = []\<rparr>]\<rparr>) [] [''it''] {''py/tests''}))
     = Some {''py/tests'', ''a'', ''it''} \<and>
   map_option res_TEST_BASES
     (returned (configure_jvm (example_world False (Dir [])) (example_project []) [] []
        {''py/tests'', ''a'', ''it''}))
     = Some {''py/tests'', ''a'', ''it''}"
proof -
  let ?W1 = "example_world True (Dir [])" and ?P0 = "example_project [''a:a'']"
  let ?W2 = "example_world False (Dir [])" and ?P2 = "example_project []"
  let ?P1 = "?P0\<lparr>py_sources :=
            [\<lparr>ss_root_dir = ''/r'', source_base = ''py/tests'', path = None, is_test = True,
              excludes = []\<rparr>]\<rparr>"
  define tb :: "string set" where "tb = {''py/tests'', ''a'', ''it''}"
  have b: "buildroot ?W1 = ''/r''" by (simp add: example_world_def)
  have p0: "py_sources ?P0 = []" "py_libs ?P0 = []"
    by (simp_all add: example_project_def Project_init_def)
  have py: "configure_python ?W1 ?P0 [] [''py/tests''] [] {} = Inr (?P1, {''py/tests''})"
    by (simp add: configure_python_def new_source_sets_result Let_def b p0)
  have fresh1: "sources ?P0 = []" and fresh2: "sources ?P2 = []"
    by (simp_all add: example_project_def Project_init_def)
  have e1: "map_option res_TEST_BASES (returned (configure_jvm ?W1 ?P1 [] [''it'']
      {''py/tests''})) = Some tb"
    unfolding tb_def by code_simp
  then obtain r1 where run1: "configure_jvm ?W1 ?P1 [] [''it''] {''py/tests''} = Some (Inr r1)"
    and t1: "res_TEST_BASES r1 = tb"
    by (rule returned_map_option)
  have s2: "map_option (\<lambda>r. sources (res_project r)) (returned (configure_jvm ?W2 ?P2 [] [] tb))
      = Some []"
    unfolding tb_def by code_simp
  then obtain r2 where run2': "configure_jvm ?W2 ?P2 [] [] tb = Some (Inr r2)"
    and src2: "sources (res_project r2) = []"
    by (rule returned_map_option)
  from run2' have run2: "configure_jvm ?W2 ?P2 [] [] (res_TEST_BASES r1) = Some (Inr r2)"
    by (simp only: t1)
  have "res_TEST_BASES r2 =
      res_TEST_BASES r1 \<union> source_base ` {s \<in> set (sources (res_project r2)). is_test s}"
    by (rule TEST_BASES_shared_never_cleared [OF py fresh1 run1 fresh2 run2,
          THEN conjunct2, THEN conjunct2, THEN conjunct2, THEN conjunct2])
  then have "res_TEST_BASES r2 = tb" by (simp add: src2 t1)
  then have e2: "map_option res_TEST_BASES (returned (configure_jvm ?W2 ?P2 [] [] tb)) = Some tb"
    by (simp only: run2' returned_def option.case sum.case option.map)
  show ?thesis
    by (intro conjI py fresh1 fresh2 e1 [unfolded tb_def] e2 [unfolded tb_def])
qed

section \<open>Owned directories and the excludes\<close>




section \<open>Ancestors of owned directories and the excludes\<close>




section \<open>What the excludes are relative to\<close>

text \<open>
  C5 (evaluation of the code at a failing input).  The target has the source base \<^verbatim>\<open>a\<close>
  and the source \<^verbatim>\<open>b/Foo.java\<close>, so that its source set has the relative path \<^verbatim>\<open>b\<close> and
  owns \<^verbatim>\<open>/r/a/b\<close>, below which the directory \<^verbatim>\<open>gen\<close> is found.  The excluded directory
  \<^verbatim>\<open>/r/a/b/gen\<close> is entered as \<^verbatim>\<open>b/gen\<close>, relative to the source base alone: joined
  with root, source base and relative path it gives \<^verbatim>\<open>/r/a/b/b/gen\<close>, and only joined with
  root and source base it gives the directory that was excluded.
\<close>

theorem excludes_relative_to_source_base_only:
  "map_option (map (\<lambda>s. (source_base s, path s, excludes s)))
     (final_sources (configure_jvm (example_world False (Dir [(''gen'', Dir [])]))
        (example_project [''a:a'']) [] [] {})) = Some [(''a'', Some ''b'', [''b/gen''])] \<and>
   path_join ''/r'' [''a'', ''b'', ''b/gen''] = ''/r/a/b/b/gen'' \<and>
   path_join ''/r'' [''a'', ''b/gen''] = ''/r/a/b/gen''"
  by code_simp

section \<open>Staging stops at the first ambiguous mapping\<close>

lemma stage_source_jars_error:
  assumes "stage_source_jars E d m cp files = Inl (e, files')" and "\<forall>s t. can_copy E s t"
  shows "is_TaskError e"
  using assms
  by (induction m arbitrary: cp files)
     (auto simp: Let_def is_TaskError_def split: if_splits)

lemma stage_sources_of_error:
  assumes "stage_sources_of E d t files = Inl (e, files')" and "\<forall>s t. can_copy E s t"
  shows "is_TaskError e"
  using assms stage_source_jars_error
  by (auto simp: stage_sources_of_def split: option.splits if_splits)

lemma stage_jars_error:
  assumes "stage_jars E jd sd t m G = Inl (e, G')" and ok: "\<forall>s t. can_copy E s t"
  shows "is_TaskError e"
  using assms(1)
proof (induction m arbitrary: G)
  case Nil
  then show ?case by simp
next
  case (Cons p m)
  obtain b jars where p: "p = (b, jars)" by (cases p)
  show ?case
  proof (cases "length jars \<noteq> 1")
    case True
    with Cons.prems show ?thesis by (auto simp: p is_TaskError_def)
  next
    case l: False
    let ?src = "path_join b [hd jars]" and ?cp = "path_join jd [hd jars]"
    have c: "can_copy E ?src ?cp" using ok by simp
    show ?thesis
    proof (cases "stage_sources_of E sd t (staged G @ [(?src, ?cp)])")
      case (Inl x)
      obtain e' files where x: "x = (e', files)" by (cases x)
      from Inl x stage_sources_of_error ok have "is_TaskError e'" by blast
      moreover from Cons.prems l c Inl x have "e = e'" by (simp add: p Let_def)
      ultimately show ?thesis by simp
    next
      case (Inr y)
      obtain cps files where y: "y = (cps, files)" by (cases y)
      from Cons.prems l c Inr y obtain G1 where "stage_jars E jd sd t m G1 = Inl (e, G')"
        by (simp add: p Let_def)
      then show ?thesis by (rule Cons.IH)
    qed
  qed
qed

lemma stage_jars_fails:
  assumes "(base, js) \<in> set m" and "length js \<noteq> 1"
  shows "\<exists>e G'. stage_jars E jd sd t m G = Inl (e, G') \<and> ((\<forall>s t. can_copy E s t) \<longrightarrow> is_TaskError e)"
  using assms
proof (induction m arbitrary: G)
  case Nil
  then show ?case by simp
next
  case (Cons p m)
  obtain b jars where p: "p = (b, jars)" by (cases p)
  show ?case
  proof (cases "length jars \<noteq> 1")
    case True
    then show ?thesis by (simp add: p is_TaskError_def)
  next
    case l: False
    with Cons.prems p have in_rest: "(base, js) \<in> set m" by auto
    let ?src = "path_join b [hd jars]" and ?cp = "path_join jd [hd jars]"
    show ?thesis
    proof (cases "can_copy E ?src ?cp")
      case False
      then show ?thesis using l by (auto simp: p Let_def)
    next
      case c: True
      show ?thesis
      proof (cases "stage_sources_of E sd t (staged G @ [(?src, ?cp)])")
        case (Inl x)
        obtain e files where x: "x = (e, files)" by (cases x)
        from Inl x stage_sources_of_error
        have "(\<forall>s t. can_copy E s t) \<longrightarrow> is_TaskError e" by blast
        then show ?thesis using l c Inl x by (simp add: p Let_def)
      next
        case (Inr y)
        obtain cps files where y: "y = (cps, files)" by (cases y)
        from Cons.IH [OF in_rest Cons.prems(2)] show ?thesis
          using l c Inr y by (simp add: p Let_def)
      qed
    qed
  qed
qed

lemma stage_targets_fails:
  assumes "t \<in> set ts" and "jars_product E t = Some m" and "(base, js) \<in> set m"
    and "length js \<noteq> 1"
  shows "\<exists>e G'. stage_targets E jd sd ts G = Inl (e, G') \<and>
           ((\<forall>s t. can_copy E s t) \<longrightarrow> is_TaskError e)"
  using assms(1)
proof (induction ts arbitrary: G)
  case Nil
  then show ?case by simp
next
  case (Cons a ts)
  show ?case
  proof (cases "jars_product E a")
    case None
    with assms(2) have "a \<noteq> t" by auto
    with Cons.prems have "t \<in> set ts" by simp
    from Cons.IH [OF this] show ?thesis by (simp add: None)
  next
    case (Some ma)
    show ?thesis
    proof (cases "ma = []")
      case True
      with Some assms(2,3) have "a \<noteq> t" by auto
      with Cons.prems have "t \<in> set ts" by simp
      from Cons.IH [OF this] show ?thesis by (simp add: Some True)
    next
      case ne: False
      show ?thesis
      proof (cases "stage_jars E jd sd a ma G")
        case (Inl x)
        obtain e G' where x: "x = (e, G')" by (cases x)
        have "(\<forall>s t. can_copy E s t) \<longrightarrow> is_TaskError e"
          using stage_jars_error Inl x by blast
        then show ?thesis using Inl x Some ne by simp
      next
        case (Inr G1)
        have "a \<noteq> t"
        proof
          assume "a = t"
          with Some assms(2) have "ma = m" by simp
          from stage_jars_fails [OF assms(3,4), of E jd sd t G] Inr \<open>a = t\<close> \<open>ma = m\<close>
          show False by auto
        qed
        with Cons.prems have "t \<in> set ts" by simp
        from Cons.IH [OF this] show ?thesis using Inr Some ne by simp
      qed
    qed
  qed
qed

lemma with_pairs_simps:
  "with_pairs E G [] = G"
  "work_dir (with_pairs E G ps) = work_dir G"
  "with_pairs E (with_pairs E G ps) qs = with_pairs E G (ps @ qs)"
  by (simp_all add: with_pairs_def)

lemma stage_source_jars_good:
  assumes "\<forall>item\<in>set sm. length (snd item) = 1"
    and "\<forall>item\<in>set sm. can_copy E (fst (source_copy sd item)) (snd (source_copy sd item))"
  shows "stage_source_jars E sd sm cp files =
     Inr (if sm = [] then cp else Some (snd (source_copy sd (last sm))),
          files @ map (source_copy sd) sm)"
  using assms
proof (induction sm arbitrary: cp files)
  case Nil
  then show ?case by simp
next
  case (Cons item sm)
  obtain b jars where i: "item = (b, jars)" by (cases item)
  from Cons.prems i have l: "length jars = 1"
    and c: "can_copy E (path_join b [hd jars]) (path_join sd [hd jars])"
    by (simp_all add: source_copy_def)
  have "stage_source_jars E sd sm (Some (path_join sd [hd jars]))
          (files @ [(path_join b [hd jars], path_join sd [hd jars])]) =
     Inr (if sm = [] then Some (path_join sd [hd jars]) else Some (snd (source_copy sd (last sm))),
          (files @ [(path_join b [hd jars], path_join sd [hd jars])]) @ map (source_copy sd) sm)"
    using Cons.prems by (intro Cons.IH) simp_all
  then show ?case using l c by (simp add: i Let_def source_copy_def)
qed

lemma stage_sources_of_good:
  assumes "\<forall>item\<in>set (source_items E t). length (snd item) = 1"
    and "\<forall>item\<in>set (source_items E t).
           can_copy E (fst (source_copy sd item)) (snd (source_copy sd item))"
  shows "stage_sources_of E sd t files =
     Inr (if source_items E t = [] then None
          else Some (snd (source_copy sd (last (source_items E t)))),
          files @ map (source_copy sd) (source_items E t))"
proof (cases "source_jars_product E t")
  case None
  then show ?thesis by (simp add: stage_sources_of_def source_items_def)
next
  case (Some sm)
  then have s: "source_items E t = sm" by (simp add: source_items_def)
  show ?thesis
  proof (cases "sm = []")
    case True
    with Some s show ?thesis by (simp add: stage_sources_of_def)
  next
    case False
    with Some s stage_source_jars_good [of sm E sd None files] assms
    show ?thesis by (simp add: stage_sources_of_def)
  qed
qed

lemma stage_jars_pairs:
  assumes w: "work_dir G = work"
    and well: "staged_well E work (takeWhile unambiguous (map (Pair t) m))"
  shows "stage_jars E (path_join work [''internal-libs'']) (path_join work [''internal-libsources''])
           t m G =
     (if list_all unambiguous (map (Pair t) m)
      then Inr (with_pairs E G (map (Pair t) m))
      else Inl (TaskError Multiple_jars,
                with_pairs E G (takeWhile unambiguous (map (Pair t) m))))"
  using assms
proof (induction m arbitrary: G)
  case Nil
  then show ?case by (simp add: with_pairs_simps)
next
  case (Cons item m)
  let ?jd = "path_join work [''internal-libs'']" and ?sd = "path_join work [''internal-libsources'']"
  let ?ps = "map (Pair t) m"
  obtain b jars where i: "item = (b, jars)" by (cases item)
  show ?case
  proof (cases "length jars = 1")
    case False
    then show ?thesis by (simp add: i unambiguous_def with_pairs_simps)
  next
    case l: True
    then have u: "unambiguous (t, b, jars)" by (simp add: unambiguous_def)
    with Cons.prems(2) have wp: "\<forall>c\<in>set (pair_copies E work (t, b, jars)). can_copy E (fst c) (snd c)"
      and ws: "\<forall>item\<in>set (source_items E t). length (snd item) = 1"
      and wr: "staged_well E work (takeWhile unambiguous ?ps)"
      by (simp_all add: i staged_well_def)
    from wp have c: "can_copy E (path_join b [hd jars]) (path_join ?jd [hd jars])"
      and cs: "\<forall>item\<in>set (source_items E t).
           can_copy E (fst (source_copy ?sd item)) (snd (source_copy ?sd item))"
      by (simp_all add: pair_copies_def)
    let ?files = "staged G @ [(path_join b [hd jars], path_join ?jd [hd jars])]"
    have src: "stage_sources_of E ?sd t ?files =
        Inr (if source_items E t = [] then None
             else Some (snd (source_copy ?sd (last (source_items E t)))),
             ?files @ map (source_copy ?sd) (source_items E t))"
      by (rule stage_sources_of_good [OF ws cs])
    let ?G1 = "with_pairs E G [(t, b, jars)]"
    have G1: "?G1 = G\<lparr>staged := ?files @ map (source_copy ?sd) (source_items E t),
        ide_project := (ide_project G)\<lparr>internal_jars := internal_jars (ide_project G) @
          [ClasspathEntry (path_join ?jd [hd jars])
             (if source_items E t = [] then None
              else Some (snd (source_copy ?sd (last (source_items E t))))) None]\<rparr>\<rparr>"
      by (simp add: with_pairs_def pair_copies_def pair_entry_def Cons.prems(1))
    have step: "stage_jars E ?jd ?sd t (item # m) G = stage_jars E ?jd ?sd t m ?G1"
      using l c by (simp add: i Let_def src G1)
    have w1: "work_dir ?G1 = work" by (simp add: with_pairs_simps Cons.prems(1))
    have la: "list_all unambiguous (map (Pair t) (item # m)) = list_all unambiguous ?ps"
      and tw: "takeWhile unambiguous (map (Pair t) (item # m)) =
          (t, b, jars) # takeWhile unambiguous ?ps"
      and mp: "map (Pair t) (item # m) = (t, b, jars) # ?ps"
      using u by (simp_all add: i)
    have wp1: "with_pairs E ?G1 qs = with_pairs E G ((t, b, jars) # qs)" for qs
      by (simp add: with_pairs_simps)
    show ?thesis
      unfolding step Cons.IH [OF w1 wr] wp1 using u by (simp add: i)
  qed
qed

lemma pairs_of_Cons:
  "pairs_of E (t # ts) =
     (case jars_product E t of None \<Rightarrow> [] | Some m \<Rightarrow> map (Pair t) m)
     @ pairs_of E ts"
  by (simp add: pairs_of_def)

lemma staged_well_append:
  "staged_well E work (ps @ qs) \<longleftrightarrow> staged_well E work ps \<and> staged_well E work qs"
  by (auto simp: staged_well_def)

lemma stage_targets_pairs:
  assumes w: "work_dir G = work"
    and well: "staged_well E work (takeWhile unambiguous (pairs_of E tgts))"
  shows "stage_targets E (path_join work [''internal-libs''])
           (path_join work [''internal-libsources'']) tgts G =
     (if list_all unambiguous (pairs_of E tgts)
      then Inr (with_pairs E G (pairs_of E tgts))
      else Inl (TaskError Multiple_jars,
                with_pairs E G (takeWhile unambiguous (pairs_of E tgts))))"
  using assms
proof (induction tgts arbitrary: G)
  case Nil
  then show ?case by (simp add: pairs_of_def with_pairs_simps)
next
  case (Cons t ts)
  let ?jd = "path_join work [''internal-libs'']" and ?sd = "path_join work [''internal-libsources'']"
  show ?case
  proof (cases "jars_product E t")
    case None
    then have p: "pairs_of E (t # ts) = pairs_of E ts" by (simp add: pairs_of_Cons)
    from Cons.IH [OF Cons.prems(1)] Cons.prems(2) show ?thesis by (simp add: p None)
  next
    case (Some m)
    let ?pt = "map (Pair t) m"
    have p: "pairs_of E (t # ts) = ?pt @ pairs_of E ts" by (simp add: pairs_of_Cons Some)
    show ?thesis
    proof (cases "m = []")
      case True
      with p have p': "pairs_of E (t # ts) = pairs_of E ts" by simp
      from Cons.IH [OF Cons.prems(1)] Cons.prems(2) show ?thesis by (simp add: p' Some True)
    next
      case ne: False
      show ?thesis
      proof (cases "list_all unambiguous ?pt")
        case False
        then obtain x where "x \<in> set ?pt" "\<not> unambiguous x" by (auto simp: list_all_iff)
        then have tw: "takeWhile unambiguous (?pt @ pairs_of E ts) = takeWhile unambiguous ?pt"
          by (rule takeWhile_append1)
        with Cons.prems(2) have "staged_well E work (takeWhile unambiguous ?pt)"
          by (simp add: p)
        from stage_jars_pairs [OF Cons.prems(1) this] False
        have "stage_jars E ?jd ?sd t m G =
            Inl (TaskError Multiple_jars, with_pairs E G (takeWhile unambiguous ?pt))"
          by simp
        then show ?thesis using False ne by (simp add: Some p tw)
      next
        case True
        then have tw: "takeWhile unambiguous (?pt @ pairs_of E ts) =
            ?pt @ takeWhile unambiguous (pairs_of E ts)"
          by (intro takeWhile_append2) (auto simp: list_all_iff)
        with Cons.prems(2) have w1: "staged_well E work ?pt"
          and w2: "staged_well E work (takeWhile unambiguous (pairs_of E ts))"
          by (simp_all add: p staged_well_append)
        have "\<forall>x\<in>set ?pt. unambiguous x" using True by (simp add: list_all_iff)
        then have "takeWhile unambiguous ?pt = ?pt" by (simp only: takeWhile_eq_all_conv)
        with w1 have "staged_well E work (takeWhile unambiguous ?pt)" by (simp only:)
        from stage_jars_pairs [OF Cons.prems(1) this] True
        have s: "stage_jars E ?jd ?sd t m G = Inr (with_pairs E G ?pt)" by simp
        have "work_dir (with_pairs E G ?pt) = work" by (simp add: with_pairs_simps Cons.prems(1))
        from Cons.IH [OF this w2] show ?thesis
          using True ne by (simp add: Some s p tw with_pairs_simps)
      qed
    qed
  qed
qed

lemma ambiguous_in_pairs:
  assumes "t \<in> set tgts" "jars_product E t = Some m" "(base, js) \<in> set m" "length js \<noteq> 1"
  shows "\<not> list_all unambiguous (pairs_of E tgts)"
proof -
  have "(t, base, js) \<in> set (pairs_of E tgts)"
    using assms(1,2,3) by (force simp: pairs_of_def)
  moreover have "\<not> unambiguous (t, base, js)" using assms(4) by (simp add: unambiguous_def)
  ultimately show ?thesis by (auto simp: list_all_iff)
qed

text \<open>
  C1 (as amended).  If the primary jar mapping of a target in the list holds, for some base
  directory, more than one file name, then \<^verbatim>\<open>map_internal_jars\<close> fails, and with a task
  error when every copy succeeds.  When the pairs met before the first pair without exactly
  one file name are staged well, the failure is the ambiguous-mapping error, the staging
  directories hold exactly the files copied for those earlier pairs, in order, and the
  project has exactly their classpath entries added: nothing is staged when there is no
  earlier pair, and what was staged before the error stays.
\<close>

theorem map_internal_jars_ambiguous_fails:
  assumes "t \<in> set tgts" and "jars_product E t = Some m" and "(base, js) \<in> set m"
    and "1 < length js"
  shows "(\<exists>e G'. map_internal_jars E tgts G = Inl (e, G') \<and>
            ((\<forall>s d. can_copy E s d) \<longrightarrow> is_TaskError e)) \<and>
         (staged_well E (work_dir G) (takeWhile unambiguous (pairs_of E tgts)) \<longrightarrow>
            map_internal_jars E tgts G =
              Inl (TaskError Multiple_jars,
                   with_pairs E (G\<lparr>staged := []\<rparr>) (takeWhile unambiguous (pairs_of E tgts))))"
proof (intro conjI impI)
  from assms(4) have l: "length js \<noteq> 1" by simp
  from stage_targets_fails [OF assms(1,2,3) l]
  show "\<exists>e G'. map_internal_jars E tgts G = Inl (e, G') \<and>
            ((\<forall>s d. can_copy E s d) \<longrightarrow> is_TaskError e)"
    by (simp add: map_internal_jars_def Let_def)
  assume well: "staged_well E (work_dir G) (takeWhile unambiguous (pairs_of E tgts))"
  have w: "work_dir (G\<lparr>staged := []\<rparr>) = work_dir G" by simp
  from stage_targets_pairs [OF w well] ambiguous_in_pairs [OF assms(1,2,3) l]
  show "map_internal_jars E tgts G =
      Inl (TaskError Multiple_jars,
           with_pairs E (G\<lparr>staged := []\<rparr>) (takeWhile unambiguous (pairs_of E tgts)))"
    by (simp add: map_internal_jars_def Let_def)
qed

theorem map_internal_jars_ambiguous_fails_witness:
  "''T'' \<in> set [''U'', ''T''] \<and>
   jars_product example_products ''T'' = Some [(''lib'', [''t-1.jar'', ''t-2.jar''])] \<and>
   (''lib'', [''t-1.jar'', ''t-2.jar'']) \<in> set [(''lib'', [''t-1.jar'', ''t-2.jar''])] \<and>
   1 < length [''t-1.jar'', ''t-2.jar''] \<and>
   staged_well example_products (work_dir example_task)
     (takeWhile unambiguous (pairs_of example_products [''U'', ''T''])) \<and>
   map_internal_jars example_products [''U'', ''T''] example_task =
     Inl (TaskError Multiple_jars,
          example_task\<lparr>staged := [(''lib/a.jar'', ''/w/internal-libs/a.jar'')],
            ide_project := (ide_project example_task)\<lparr>internal_jars :=
              [ClasspathEntry ''/w/internal-libs/a.jar'' None None]\<rparr>\<rparr>)"
proof -
  have 1: "''T'' \<in> set [''U'', ''T'']" by simp
  have 2: "jars_product example_products ''T'' = Some [(''lib'', [''t-1.jar'', ''t-2.jar''])]"
    by (simp add: example_products_def)
  have 3: "(''lib'', [''t-1.jar'', ''t-2.jar'']) \<in> set [(''lib'', [''t-1.jar'', ''t-2.jar''])]"
    by simp
  have 4: "1 < length [''t-1.jar'', ''t-2.jar'']" by simp
  have 5: "staged_well example_products (work_dir example_task)
     (takeWhile unambiguous (pairs_of example_products [''U'', ''T'']))"
    by code_simp
  have 6: "with_pairs example_products (example_task\<lparr>staged := []\<rparr>)
      (takeWhile unambiguous (pairs_of example_products [''U'', ''T''])) =
    example_task\<lparr>staged := [(''lib/a.jar'', ''/w/internal-libs/a.jar'')],
            ide_project := (ide_project example_task)\<lparr>internal_jars :=
              [ClasspathEntry ''/w/internal-libs/a.jar'' None None]\<rparr>\<rparr>"
    by code_simp
  from map_internal_jars_ambiguous_fails [OF 1 2 3 4, of example_task, THEN conjunct2, rule_format, OF 5]
  have 7: "map_internal_jars example_products [''U'', ''T''] example_task =
     Inl (TaskError Multiple_jars,
          example_task\<lparr>staged := [(''lib/a.jar'', ''/w/internal-libs/a.jar'')],
            ide_project := (ide_project example_task)\<lparr>internal_jars :=
              [ClasspathEntry ''/w/internal-libs/a.jar'' None None]\<rparr>\<rparr>)"
    unfolding 6 .
  show ?thesis by (intro conjI 1 2 3 4 5 7)
qed

text \<open>
  The claim as written fails when another target comes first: the jar of \<^verbatim>\<open>U\<close> has been
  copied when the ambiguous mapping of \<^verbatim>\<open>T\<close> raises the error.
\<close>

theorem map_internal_jars_partial_staging_counterexample:
  "staging_outcome (map_internal_jars example_products [''U'', ''T''] example_task) =
     (Some (TaskError Multiple_jars), [(''lib/a.jar'', ''/w/internal-libs/a.jar'')])"
  by code_simp

section \<open>The result does not depend on TEST_BASES\<close>

lemma register_path_alike:
  assumes "alike st st'"
  shows "alike (register_path rb test st p) (register_path rb test st' p)"
  using assms by (simp add: alike_def register_path_def Let_def SourceSet_init_def)

lemma foldl_register_path_alike:
  "alike st st' \<Longrightarrow>
   alike (foldl (register_path rb test) st ps) (foldl (register_path rb test) st' ps)"
  by (induction ps arbitrary: st st') (simp_all add: register_path_alike)

lemma configure_source_sets_alike:
  "alike st st' \<Longrightarrow>
   alike (configure_source_sets W rb srcs test st) (configure_source_sets W rb srcs test st')"
  by (simp add: configure_source_sets_def Let_def foldl_register_path_alike)

lemma alike_update:
  assumes "alike st st'"
  shows "alike (st\<lparr>proj := f (proj st)\<rparr>) (st'\<lparr>proj := f (proj st')\<rparr>)"
    and "alike (st\<lparr>analyzed := g (analyzed st)\<rparr>) (st'\<lparr>analyzed := g (analyzed st')\<rparr>)"
  using assms by (simp_all add: alike_def)

lemma configure_resources_alike:
  assumes "alike st st'"
  shows "alike (configure_resources W groups st b) (configure_resources W groups st' b)"
proof -
  let ?f = "\<lambda>P :: project. P\<lparr>resource_extensions := resource_extensions P \<union>
      set (extract_resource_extensions (set_order W (concat (map snd
        (filter (\<lambda>g. fst g = b) groups)))))\<rparr>"
  have "alike (st\<lparr>proj := ?f (proj st)\<rparr>) (st'\<lparr>proj := ?f (proj st')\<rparr>)"
    by (rule alike_update(1) [OF assms])
  then show ?thesis
    by (simp add: configure_resources_def Let_def configure_source_sets_alike)
qed

lemma foldl_configure_resources_alike:
  "alike st st' \<Longrightarrow>
   alike (foldl (configure_resources W groups) st bs) (foldl (configure_resources W groups) st' bs)"
  by (induction bs arbitrary: st st') (simp_all add: configure_resources_alike)

lemma configure_target_alike:
  assumes a: "alike st st'"
  shows "fst (configure_target W x st) = fst (configure_target W x st')"
    and "alike (snd (configure_target W x st)) (snd (configure_target W x st'))"
proof -
  define t where "t = Target_get W x"
  define step2 where "step2 = (\<lambda>P :: project. P\<lparr>has_scala := \<not> skip_scala P \<and> (has_scala P \<or> is_scala t)\<rparr>)"
  define step3 where "step3 = (\<lambda>s :: jvm_state. if has_resources t
      then foldl (configure_resources W (resources t)) s (set_order W (map fst (resources t)))
      else s)"
  define step4 where "step4 = (\<lambda>s :: jvm_state. if target_sources t \<noteq> []
      then configure_source_sets W (target_base t) (target_sources t) (target_is_test t)
             (s\<lparr>proj := (proj s)\<lparr>has_tests := has_tests (proj s) \<or> target_is_test t\<rparr>\<rparr>)
      else s)"
  define final where "final = (\<lambda>s :: jvm_state. step4 (step3 ((s\<lparr>analyzed := analyzed s @ [x]\<rparr>)
      \<lparr>proj := step2 (proj s)\<rparr>)))"
  have unfold: "configure_target W x s =
      (if x \<in> set (analyzed s) then ([], s)
       else (filter (is_sibling W (proj (final s)) (find_source_basedirs W (proj (final s)) x))
               (filter (\<lambda>c. c \<noteq> address t) (candidates t)), final s))" for s
    by (simp add: configure_target_def Let_def final_def step4_def step3_def step2_def t_def)
  have s3: "alike (step3 s) (step3 s')" if "alike s s'" for s s'
    using that by (simp add: step3_def foldl_configure_resources_alike)
  have s4: "alike (step4 s) (step4 s')" if "alike s s'" for s s'
  proof -
    have "alike (s\<lparr>proj := (\<lambda>P :: project. P\<lparr>has_tests := has_tests P \<or> target_is_test t\<rparr>) (proj s)\<rparr>)
        (s'\<lparr>proj := (\<lambda>P :: project. P\<lparr>has_tests := has_tests P \<or> target_is_test t\<rparr>) (proj s')\<rparr>)"
      by (rule alike_update(1) [OF that])
    then show ?thesis using that by (simp add: step4_def configure_source_sets_alike)
  qed
  have "alike (st\<lparr>analyzed := (\<lambda>xs. xs @ [x]) (analyzed st)\<rparr>)
      (st'\<lparr>analyzed := (\<lambda>xs. xs @ [x]) (analyzed st')\<rparr>)"
    by (rule alike_update(2) [OF a])
  then have "alike ((st\<lparr>analyzed := analyzed st @ [x]\<rparr>)\<lparr>proj := step2 (proj st)\<rparr>)
      ((st'\<lparr>analyzed := analyzed st' @ [x]\<rparr>)\<lparr>proj := step2 (proj st')\<rparr>)"
    using a by (simp add: alike_def)
  then have f: "alike (final st) (final st')"
    unfolding final_def by (intro s4 s3)
  from a have an: "analyzed st = analyzed st'" by (simp add: alike_def)
  from f have pf: "proj (final st) = proj (final st')" by (simp add: alike_def)
  show "fst (configure_target W x st) = fst (configure_target W x st')"
    by (simp add: unfold an pf)
  show "alike (snd (configure_target W x st)) (snd (configure_target W x st'))"
    using a f by (simp add: unfold an)
qed

lemma walk_targets_simulation:
  assumes run: "walk_targets predicate work deps pending walked s = Some s'"
    and step: "\<And>a s t. R s t \<Longrightarrow> predicate a s = predicate a t \<and>
        fst (work a s) = fst (work a t) \<and> R (snd (work a s)) (snd (work a t))"
    and init: "R s t"
  shows "\<exists>t'. walk_targets predicate work deps pending walked t = Some t' \<and> R s' t'"
proof -
  let ?ok = "\<lambda>predicate work. \<forall>a s t. R s t \<longrightarrow> predicate a s = predicate a t \<and>
        fst (work a s) = fst (work a t) \<and> R (snd (work a s)) (snd (work a t))"
  have "?ok predicate work \<longrightarrow> (\<forall>t. R s t \<longrightarrow>
      (\<exists>t'. walk_targets predicate work deps pending walked t = Some t' \<and> R s' t'))"
  proof (rule walk_targets.raw_induct
      [where P = "\<lambda>predicate work deps pending walked s s'. ?ok predicate work \<longrightarrow>
          (\<forall>t. R s t \<longrightarrow>
            (\<exists>t'. walk_targets predicate work deps pending walked t = Some t' \<and> R s' t'))",
       OF _ run])
    fix f and predicate :: "address \<Rightarrow> 'a \<Rightarrow> bool" and work deps pending walked s y
    assume IH: "\<And>predicate work deps pending walked s y.
        f predicate work deps pending walked s = Some y \<Longrightarrow>
        ?ok predicate work \<longrightarrow> (\<forall>t. R s t \<longrightarrow>
            (\<exists>t'. walk_targets predicate work deps pending walked t = Some t' \<and> R y t'))"
      and body: "(case pending of
          [] \<Rightarrow> Some s
        | a # rest \<Rightarrow>
            if a \<in> walked then f predicate work deps rest walked s
            else (let r = (if predicate a s then work a s else ([], s))
                  in f predicate work deps (deps a @ fst r @ rest) (insert a walked) (snd r))) = Some y"
    show "?ok predicate work \<longrightarrow> (\<forall>t. R s t \<longrightarrow>
            (\<exists>t'. walk_targets predicate work deps pending walked t = Some t' \<and> R y t'))"
    proof (intro impI allI)
      fix t assume ok: "?ok predicate work" and r: "R s t"
      show "\<exists>t'. walk_targets predicate work deps pending walked t = Some t' \<and> R y t'"
      proof (cases pending)
        case Nil
        with body r show ?thesis by (simp add: walk_targets.simps)
      next
        case (Cons a rest)
        show ?thesis
        proof (cases "a \<in> walked")
          case True
          with Cons body have "f predicate work deps rest walked s = Some y" by simp
          from IH [OF this] ok r obtain t' where
            "walk_targets predicate work deps rest walked t = Some t'" "R y t'" by blast
          then show ?thesis using True Cons
            by (subst walk_targets.simps) simp
        next
          case False
          let ?rs = "if predicate a s then work a s else ([], s)"
          let ?rt = "if predicate a t then work a t else ([], t)"
          from ok r have p: "predicate a s = predicate a t"
            and w: "fst (work a s) = fst (work a t)" "R (snd (work a s)) (snd (work a t))"
            by blast+
          have e: "fst ?rs = fst ?rt" and r': "R (snd ?rs) (snd ?rt)"
            using p w r by auto
          from False Cons body
          have "f predicate work deps (deps a @ fst ?rs @ rest) (insert a walked) (snd ?rs) = Some y"
            by (simp add: Let_def)
          from IH [OF this] ok r' obtain t' where
            "walk_targets predicate work deps (deps a @ fst ?rs @ rest) (insert a walked) (snd ?rt)
               = Some t'" "R y t'"
            by blast
          then show ?thesis using False Cons e
            by (subst walk_targets.simps) (simp add: Let_def)
        qed
      qed
    qed
  qed
  with step init show ?thesis by blast
qed

lemma walk_targets_alike:
  assumes a: "alike s t"
  shows "rel_option alike
     (walk_targets (\<lambda>b s. source_target W (proj s) b) (configure_target W) deps pending walked s)
     (walk_targets (\<lambda>b s. source_target W (proj s) b) (configure_target W) deps pending walked t)"
proof -
  let ?p = "\<lambda>b s. source_target W (proj s) b"
  have step: "?p x s = ?p x t \<and> fst (configure_target W x s) = fst (configure_target W x t) \<and>
      alike (snd (configure_target W x s)) (snd (configure_target W x t))"
    if "alike s t" for x s t
    using that configure_target_alike [OF that] by (simp add: alike_def)
  have step': "?p x s = ?p x t \<and> fst (configure_target W x s) = fst (configure_target W x t) \<and>
      (\<lambda>u v. alike v u) (snd (configure_target W x s)) (snd (configure_target W x t))"
    if "(\<lambda>u v. alike v u) s t" for x s t
    using that configure_target_alike [of t s W x] by (simp add: alike_def)
  show ?thesis
  proof (cases "walk_targets ?p (configure_target W) deps pending walked s")
    case None
    show ?thesis
    proof (cases "walk_targets ?p (configure_target W) deps pending walked t")
      case n: None
      with None show ?thesis by simp
    next
      case (Some t')
      from walk_targets_simulation [OF Some, where R = "\<lambda>u v. alike v u" and t = s] step' a
      have "\<exists>s'. walk_targets ?p (configure_target W) deps pending walked s = Some s'"
        by blast
      with None show ?thesis by simp
    qed
  next
    case (Some s')
    from walk_targets_simulation [OF Some, where R = alike and t = t] step a
    obtain t' where "walk_targets ?p (configure_target W) deps pending walked t = Some t'"
      "alike s' t'" by blast
    with Some show ?thesis by simp
  qed
qed

lemma analyze_targets_alike:
  "alike s t \<Longrightarrow> rel_option alike (analyze_targets W as s) (analyze_targets W as t)"
proof (induction as arbitrary: s t)
  case Nil
  then show ?case by simp
next
  case (Cons a as)
  from walk_targets_alike [OF Cons.prems, of W "\<lambda>b. dependencies (Target_get W b)" "[a]" "{}"]
  have r: "rel_option alike
       (Target_walk W a (configure_target W) (\<lambda>b s. source_target W (proj s) b) s)
       (Target_walk W a (configure_target W) (\<lambda>b s. source_target W (proj s) b) t)"
    by (simp add: Target_walk_def)
  then show ?case
    by (cases rule: option.rel_cases) (simp_all add: Cons.IH)
qed

lemma configure_jvm_independent_of_TEST_BASES:
  "outcome (configure_jvm W P extra_source_paths extra_test_paths tb) =
   outcome (configure_jvm W P extra_source_paths extra_test_paths tb')"
proof -
  let ?s = "\<lparr>analyzed = [], targeted = {}, proj = P, TEST_BASES = tb\<rparr>"
  let ?t = "\<lparr>analyzed = [], targeted = {}, proj = P, TEST_BASES = tb'\<rparr>"
  have "alike ?s ?t" by (simp add: alike_def)
  from analyze_targets_alike [OF this, of W "targets P"]
  show ?thesis
  proof (cases rule: option.rel_cases)
    case None
    then show ?thesis by (simp add: configure_jvm_def outcome_def)
  next
    case (Some st st')
    from Some(3) have e: "analyzed st = analyzed st'" "targeted st = targeted st'"
      "proj st = proj st'"
      by (simp_all add: alike_def)
    show ?thesis
      using Some(1,2)
      by (simp add: configure_jvm_def outcome_def visible_def e new_source_sets_result Let_def
          split: option.splits sum.splits prod.splits)
  qed
qed

lemma valid_longest_first: "valid_set_order longest_first"
  by (simp add: valid_set_order_def longest_first_def insertion_order_def
      OrderedSet_update_set OrderedSet_update_distinct)

text \<open>
  C6 (as amended).  Two runs of \<^verbatim>\<open>configure_jvm\<close> on the same project, build graph, snapshot
  of the file system and extra roots, in which Python iterates over sets in the same order,
  end alike whatever the class-level \<^verbatim>\<open>SourceSet.TEST_BASES\<close> holds when each starts: both
  return, both raise the same error or neither ends, with the same ordered list of source
  sets, excludes included, and the same expanded targets in the same order.
\<close>

theorem configure_jvm_same_result_same_iteration_order:
  assumes "ord = set_order W"
  shows "outcome (configure_jvm (W\<lparr>set_order := ord\<rparr>) P extra_source_paths extra_test_paths tb') =
         outcome (configure_jvm W P extra_source_paths extra_test_paths tb)"
proof -
  have "W\<lparr>set_order := ord\<rparr> = W" using assms by simp
  then show ?thesis
    using configure_jvm_independent_of_TEST_BASES [of W P extra_source_paths extra_test_paths tb' tb]
    by simp
qed

theorem configure_jvm_same_result_same_iteration_order_witness:
  "insertion_order = set_order (example_world False (Dir [(''x'', Dir [(''y'', Dir [])])])) \<and>
   outcome (configure_jvm
     ((example_world False (Dir [(''x'', Dir [(''y'', Dir [])])]))\<lparr>set_order := insertion_order\<rparr>)
     (example_project [''a:a'']) [] [] {''t''}) =
   outcome (configure_jvm (example_world False (Dir [(''x'', Dir [(''y'', Dir [])])]))
     (example_project [''a:a'']) [] [] {})"
proof -
  have o: "insertion_order = set_order (example_world False (Dir [(''x'', Dir [(''y'', Dir [])])]))"
    by (simp add: example_world_def)
  show ?thesis
    by (intro conjI o configure_jvm_same_result_same_iteration_order [OF o])
qed

text \<open>
  The claim as written fails when the two runs iterate over sets in different orders, each
  listing every element once: with the subdirectories \<^verbatim>\<open>x\<close> and \<^verbatim>\<open>x/y\<close> below the owned
  directory, the excludes come out in insertion order in one run and longest first in the
  other.
\<close>

theorem configure_jvm_iteration_order_counterexample:
  "valid_set_order insertion_order \<and> valid_set_order longest_first \<and>
   map_option (map excludes) (final_sources (configure_jvm
     (example_world False (Dir [(''x'', Dir [(''y'', Dir [])])]))
     (example_project [''a:a'']) [] [] {})) = Some [[''b/x'', ''b/x/y'']] \<and>
   map_option (map excludes) (final_sources (configure_jvm
     ((example_world False (Dir [(''x'', Dir [(''y'', Dir [])])]))\<lparr>set_order := longest_first\<rparr>)
     (example_project [''a:a'']) [] [] {})) = Some [[''b/x/y'', ''b/x'']]"
proof -
  have 1: "map_option (map excludes) (final_sources (configure_jvm
     (example_world False (Dir [(''x'', Dir [(''y'', Dir [])])]))
     (example_project [''a:a'']) [] [] {})) = Some [[''b/x'', ''b/x/y'']]"
    by code_simp
  have 2: "map_option (map excludes) (final_sources (configure_jvm
     ((example_world False (Dir [(''x'', Dir [(''y'', Dir [])])]))\<lparr>set_order := longest_first\<rparr>)
     (example_project [''a:a'']) [] [] {})) = Some [[''b/x/y'', ''b/x'']]"
    by code_simp
  show ?thesis by (intro conjI valid_insertion_order valid_longest_first 1 2)
qed

end
